theory Spec2Isabelle
  imports Main "HOL-Library.Sublist" "HOL-Library.Word"
begin

text \<open>
  The diff engine of \<open>src/App.jsx\<close>: the sequence matcher \<open>computeLCS\<close>, the line
  differencer and block merger \<open>computeLineDiff\<close>, the alignment calculator
  \<open>computeViewZones\<close> and the patch serializer \<open>generateUnifiedPatch\<close>, each as a
  function that computes what the source computes, followed by the properties of the
  specification that hold of them.
\<close>

section \<open>Data model\<close>

text \<open>
  A JavaScript string is a sequence of UTF-16 code units. Lines, comparison keys and the
  patch text are all values of this type.
\<close>

type_synonym jschar = "16 word"
type_synonym jsstring = "jschar list"

text \<open>String literals of the source, written as Isabelle strings.\<close>

definition js :: "string \<Rightarrow> jsstring" where
  "js s = map of_char s"

text \<open>
  A diff entry is the object literal \<open>{ type, leftLine, leftLineNum, rightLine,
  rightLineNum }\<close> of \<open>computeLineDiff\<close>. A line field holds a string, \<open>null\<close>, or
  \<open>undefined\<close> (what an array read past the end gives); a line-number field holds a number,
  \<open>null\<close>, or \<open>NaN\<close> (what \<open>undefined + 1\<close> gives).
\<close>

datatype etype = Unchanged | Deleted | Added | Modified

datatype jsline = Null | Undefined | Str jsstring

datatype jsnum = NullNum | NaN | Num nat

record entry =
  type :: etype
  leftLine :: jsline
  leftLineNum :: jsnum
  rightLine :: jsline
  rightLineNum :: jsnum

datatype side = SideLeft | SideRight

record zone =
  afterLineNumber :: jsnum
  heightInLines :: nat

section \<open>computeViewZones\<close>

text \<open>
  The body of the \<open>forEach\<close> callback, on the state
  \<open>(zones, currentLineNum, pendingPlaceholders)\<close>.
\<close>

definition lineNumOn :: "side \<Rightarrow> entry \<Rightarrow> jsnum" where
  "lineNumOn s e = (if s = SideLeft then leftLineNum e else rightLineNum e)"

definition lineNumOff :: "side \<Rightarrow> entry \<Rightarrow> jsnum" where
  "lineNumOff s e = (if s = SideLeft then rightLineNum e else leftLineNum e)"

definition viewZoneStep :: "side \<Rightarrow> entry \<Rightarrow> zone list \<times> jsnum \<times> nat \<Rightarrow> zone list \<times> jsnum \<times> nat" where
  "viewZoneStep s e st =
     (case st of (zones, currentLineNum, pendingPlaceholders) \<Rightarrow>
        let hasLineOnThisSide = (lineNumOn s e \<noteq> NullNum);
            hasLineOnOtherSide = (lineNumOff s e \<noteq> NullNum)
        in if hasLineOnThisSide then
             (if pendingPlaceholders > 0
              then (zones @ [\<lparr>afterLineNumber = currentLineNum,
                               heightInLines = pendingPlaceholders\<rparr>], lineNumOn s e, 0)
              else (zones, lineNumOn s e, pendingPlaceholders))
           else if hasLineOnOtherSide then (zones, currentLineNum, pendingPlaceholders + 1)
           else (zones, currentLineNum, pendingPlaceholders))"

definition computeViewZones :: "entry list \<Rightarrow> side \<Rightarrow> zone list" where
  "computeViewZones diff s =
     (case fold (viewZoneStep s) diff ([], Num 0, 0) of
        (zones, currentLineNum, pendingPlaceholders) \<Rightarrow>
          if pendingPlaceholders > 0
          then zones @ [\<lparr>afterLineNumber = currentLineNum, heightInLines = pendingPlaceholders\<rparr>]
          else zones)"

section \<open>computeLCS\<close>

text \<open>
  An element of the list \<open>computeLCS\<close> returns: \<open>{ leftIndex, rightIndex, value }\<close>.
\<close>

record 'a lcs_match =
  leftIndex :: nat
  rightIndex :: nat
  value' :: 'a

text \<open>
  The body of the two nested \<open>for\<close> loops: the assignment to \<open>dp[i][j]\<close>. The table is
  an array of \<open>m + 1\<close> rows of \<open>n + 1\<close> zeros, updated in place; the loops run \<open>i\<close> from
  \<open>1\<close> to \<open>m\<close> and, inside, \<open>j\<close> from \<open>1\<close> to \<open>n\<close>. Keys are compared with \<open>===\<close>; the
  keys of this program are strings, which \<open>===\<close> compares by value.
\<close>

definition dpCell :: "'a list \<Rightarrow> 'a list \<Rightarrow> nat \<Rightarrow> nat \<Rightarrow> nat list list \<Rightarrow> nat list list" where
  "dpCell left right i j dp =
     (if left ! (i - 1) = right ! (j - 1)
      then dp[i := (dp ! i)[j := dp ! (i - 1) ! (j - 1) + 1]]
      else dp[i := (dp ! i)[j := max (dp ! (i - 1) ! j) (dp ! i ! (j - 1))]])"

definition dpTable :: "'a list \<Rightarrow> 'a list \<Rightarrow> nat list list" where
  "dpTable left right =
     (let m = length left; n = length right
      in fold (\<lambda>i. fold (dpCell left right i) [1..<Suc n]) [1..<Suc m]
           (replicate (Suc m) (replicate (Suc n) 0)))"

text \<open>The backtracking \<open>while (i > 0 && j > 0)\<close> loop; \<open>unshift\<close> puts a match in front.\<close>

function backtrack ::
  "'a list \<Rightarrow> 'a list \<Rightarrow> nat list list \<Rightarrow> nat \<Rightarrow> nat \<Rightarrow> 'a lcs_match list \<Rightarrow> 'a lcs_match list" where
  "backtrack left right dp i j lcs =
     (if i > 0 \<and> j > 0 then
        (if left ! (i - 1) = right ! (j - 1)
         then backtrack left right dp (i - 1) (j - 1)
                (\<lparr>leftIndex = i - 1, rightIndex = j - 1, value' = left ! (i - 1)\<rparr> # lcs)
         else if dp ! (i - 1) ! j > dp ! i ! (j - 1)
         then backtrack left right dp (i - 1) j lcs
         else backtrack left right dp i (j - 1) lcs)
      else lcs)"
  by pat_completeness auto
termination
  by (relation "measure (\<lambda>(left, right, dp, i, j, lcs). i + j)") auto

declare backtrack.simps [simp del]

definition computeLCS :: "'a list \<Rightarrow> 'a list \<Rightarrow> 'a lcs_match list" where
  "computeLCS left right =
     backtrack left right (dpTable left right) (length left) (length right) []"

section \<open>computeLineDiff\<close>

record options =
  ignoreWhitespace :: bool
  ignoreCase :: bool
  ignoreBlankLines :: bool

text \<open>\<open>options = {}\<close>: every flag is \<open>undefined\<close>, which is falsy.\<close>

definition defaultOptions :: options where
  "defaultOptions = \<lparr>ignoreWhitespace = False, ignoreCase = False, ignoreBlankLines = False\<rparr>"

text \<open>
  The code units that the regular expression class \<open>\s\<close> matches and that \<open>trim\<close>
  strips: ECMAScript's WhiteSpace and LineTerminator.
\<close>

definition isWhiteSpace :: "jschar \<Rightarrow> bool" where
  "isWhiteSpace c =
     (c = 0x09 \<or> c = 0x0A \<or> c = 0x0B \<or> c = 0x0C \<or> c = 0x0D \<or> c = 0x20 \<or> c = 0xA0 \<or>
      c = 0x1680 \<or> (0x2000 \<le> c \<and> c \<le> 0x200A) \<or> c = 0x2028 \<or> c = 0x2029 \<or>
      c = 0x202F \<or> c = 0x205F \<or> c = 0x3000 \<or> c = 0xFEFF)"

text \<open>\<open>replace(/\s+/g, ' ')\<close>: every maximal run of white space becomes one space.\<close>

function collapseWhiteSpace :: "jsstring \<Rightarrow> jsstring" where
  "collapseWhiteSpace [] = []"
| "collapseWhiteSpace (c # cs) =
     (if isWhiteSpace c then 0x20 # collapseWhiteSpace (dropWhile isWhiteSpace cs)
      else c # collapseWhiteSpace cs)"
  by pat_completeness auto
termination
  by (relation "measure length") (auto simp: le_imp_less_Suc length_dropWhile_le)

definition trim :: "jsstring \<Rightarrow> jsstring" where
  "trim s = rev (dropWhile isWhiteSpace (rev (dropWhile isWhiteSpace s)))"

text \<open>
  \<open>processLine\<close>. \<open>String.prototype.toLowerCase\<close> is the host's Unicode case mapping; it
  is a parameter of the model.
\<close>

definition processLine :: "(jsstring \<Rightarrow> jsstring) \<Rightarrow> options \<Rightarrow> jsstring \<Rightarrow> jsstring" where
  "processLine toLowerCase opts line =
     (let processed = line;
          processed = (if ignoreWhitespace opts then trim (collapseWhiteSpace processed) else processed);
          processed = (if ignoreCase opts then toLowerCase processed else processed)
      in processed)"

text \<open>
  The \<open>forEach\<close> of the \<open>ignoreBlankLines\<close> branch, on the pair
  \<open>(leftFiltered, leftMapping)\<close>: a line is kept when \<open>line.trim()\<close> is truthy, that is,
  not the empty string.
\<close>

definition filterStep :: "jsstring \<times> nat \<Rightarrow> jsstring list \<times> nat list \<Rightarrow> jsstring list \<times> nat list" where
  "filterStep li st =
     (case li of (line, i) \<Rightarrow> case st of (filtered, mapping) \<Rightarrow>
        if trim line \<noteq> [] then (filtered @ [line], mapping @ [i]) else (filtered, mapping))"

definition filterBlank :: "jsstring list \<Rightarrow> jsstring list \<times> nat list" where
  "filterBlank lines = fold filterStep (zip lines [0..<length lines]) ([], [])"

text \<open>
  Array reads of the main loop. Past the end, \<open>leftFiltered[leftIdx]\<close> is \<open>undefined\<close> and
  \<open>leftMapping[leftIdx] + 1\<close> is \<open>NaN\<close>.
\<close>

definition lineAt :: "jsstring list \<Rightarrow> nat \<Rightarrow> jsline" where
  "lineAt xs i = (if i < length xs then Str (xs ! i) else Undefined)"

definition lineNumAt :: "nat list \<Rightarrow> nat \<Rightarrow> jsnum" where
  "lineNumAt mapping i = (if i < length mapping then Num (mapping ! i + 1) else NaN)"

definition deletedEntry :: "jsstring list \<Rightarrow> nat list \<Rightarrow> nat \<Rightarrow> entry" where
  "deletedEntry leftFiltered leftMapping leftIdx =
     \<lparr>type = Deleted,
      leftLine = lineAt leftFiltered leftIdx, leftLineNum = lineNumAt leftMapping leftIdx,
      rightLine = Null, rightLineNum = NullNum\<rparr>"

definition addedEntry :: "jsstring list \<Rightarrow> nat list \<Rightarrow> nat \<Rightarrow> entry" where
  "addedEntry rightFiltered rightMapping rightIdx =
     \<lparr>type = Added,
      leftLine = Null, leftLineNum = NullNum,
      rightLine = lineAt rightFiltered rightIdx, rightLineNum = lineNumAt rightMapping rightIdx\<rparr>"

definition unchangedEntry ::
  "jsstring list \<Rightarrow> nat list \<Rightarrow> jsstring list \<Rightarrow> nat list \<Rightarrow> nat \<Rightarrow> nat \<Rightarrow> entry" where
  "unchangedEntry leftFiltered leftMapping rightFiltered rightMapping leftIdx rightIdx =
     \<lparr>type = Unchanged,
      leftLine = lineAt leftFiltered leftIdx, leftLineNum = lineNumAt leftMapping leftIdx,
      rightLine = lineAt rightFiltered rightIdx, rightLineNum = lineNumAt rightMapping rightIdx\<rparr>"

text \<open>
  The inner loops \<open>while (leftIdx < bound) { result.push(deleted); leftIdx++ }\<close> and
  \<open>while (rightIdx < bound) { result.push(added); rightIdx++ }\<close>; they return the index
  and the result array.
\<close>

function pushDeleted ::
  "jsstring list \<Rightarrow> nat list \<Rightarrow> nat \<Rightarrow> nat \<Rightarrow> entry list \<Rightarrow> nat \<times> entry list" where
  "pushDeleted leftFiltered leftMapping bound leftIdx result =
     (if leftIdx < bound
      then pushDeleted leftFiltered leftMapping bound (leftIdx + 1)
             (result @ [deletedEntry leftFiltered leftMapping leftIdx])
      else (leftIdx, result))"
  by pat_completeness auto
termination
  by (relation "measure (\<lambda>(lf, lm, bound, leftIdx, result). bound - leftIdx)") auto

declare pushDeleted.simps [simp del]

function pushAdded ::
  "jsstring list \<Rightarrow> nat list \<Rightarrow> nat \<Rightarrow> nat \<Rightarrow> entry list \<Rightarrow> nat \<times> entry list" where
  "pushAdded rightFiltered rightMapping bound rightIdx result =
     (if rightIdx < bound
      then pushAdded rightFiltered rightMapping bound (rightIdx + 1)
             (result @ [addedEntry rightFiltered rightMapping rightIdx])
      else (rightIdx, result))"
  by pat_completeness auto
termination
  by (relation "measure (\<lambda>(rf, rm, bound, rightIdx, result). bound - rightIdx)") auto

declare pushAdded.simps [simp del]

text \<open>The main \<open>while\<close> loop over \<open>leftIdx\<close>, \<open>rightIdx\<close> and \<open>lcsIdx\<close>.\<close>

function diffLoop ::
  "jsstring list \<Rightarrow> nat list \<Rightarrow> jsstring list \<Rightarrow> nat list \<Rightarrow> 'a lcs_match list \<Rightarrow>
   nat \<Rightarrow> nat \<Rightarrow> nat \<Rightarrow> entry list \<Rightarrow> entry list" where
  "diffLoop leftFiltered leftMapping rightFiltered rightMapping lcs leftIdx rightIdx lcsIdx result =
     (if leftIdx < length leftFiltered \<or> rightIdx < length rightFiltered then
        (if lcsIdx < length lcs then
           (let match = lcs ! lcsIdx in
            case pushDeleted leftFiltered leftMapping (leftIndex match) leftIdx result of
              (leftIdx1, result1) \<Rightarrow>
            case pushAdded rightFiltered rightMapping (rightIndex match) rightIdx result1 of
              (rightIdx1, result2) \<Rightarrow>
            diffLoop leftFiltered leftMapping rightFiltered rightMapping lcs
              (leftIdx1 + 1) (rightIdx1 + 1) (lcsIdx + 1)
              (result2 @ [unchangedEntry leftFiltered leftMapping rightFiltered rightMapping
                            leftIdx1 rightIdx1]))
         else
           (case pushDeleted leftFiltered leftMapping (length leftFiltered) leftIdx result of
              (leftIdx1, result1) \<Rightarrow>
            case pushAdded rightFiltered rightMapping (length rightFiltered) rightIdx result1 of
              (rightIdx1, result2) \<Rightarrow>
            diffLoop leftFiltered leftMapping rightFiltered rightMapping lcs
              leftIdx1 rightIdx1 lcsIdx result2))
      else result)"
  by pat_completeness auto
termination
proof -
  have del: "fst (pushDeleted lf lm b i r) = max i b" for lf lm b i r
    by (induction lf lm b i r rule: pushDeleted.induct) (subst pushDeleted.simps, simp)
  have add: "fst (pushAdded rf rm b i r) = max i b" for rf rm b i r
    by (induction rf rm b i r rule: pushAdded.induct) (subst pushAdded.simps, simp)
  show ?thesis
  proof (relation "measure (\<lambda>(lf, lm, rf, rm, lcs, leftIdx, rightIdx, lcsIdx, result).
            2 * (length lcs - lcsIdx) + (if leftIdx < length lf \<or> rightIdx < length rf then 1 else 0))",
         goal_cases)
    case 1
    show ?case by simp
  next
    case (2 lf lm rf rm lcs leftIdx rightIdx lcsIdx result match leftIdx1 result1 rightIdx1 result2)
    then show ?case by auto
  next
    case (3 lf lm rf rm lcs leftIdx rightIdx lcsIdx result leftIdx1 result1 rightIdx1 result2)
    have "leftIdx1 = max leftIdx (length lf)"
      using 3 del [of lf lm "length lf" leftIdx result] by (metis fst_conv)
    moreover have "rightIdx1 = max rightIdx (length rf)"
      using 3 add [of rf rm "length rf" rightIdx result1] by (metis fst_conv)
    ultimately show ?case using 3 by auto
  qed
qed

declare diffLoop.simps [simp del]

text \<open>
  The merge phase. \<open>collectType\<close> is each of the two inner loops
  \<open>while (i < result.length && result[i].type === t) { acc.push(result[i]); i++ }\<close>.
\<close>

function collectType :: "etype \<Rightarrow> entry list \<Rightarrow> nat \<Rightarrow> entry list \<Rightarrow> nat \<times> entry list" where
  "collectType t result i acc =
     (if i < length result \<and> type (result ! i) = t
      then collectType t result (i + 1) (acc @ [result ! i])
      else (i, acc))"
  by pat_completeness auto
termination
  by (relation "measure (\<lambda>(t, result, i, acc). length result - i)") auto

declare collectType.simps [simp del]

definition modifiedEntry :: "entry \<Rightarrow> entry \<Rightarrow> entry" where
  "modifiedEntry d a =
     \<lparr>type = Modified,
      leftLine = leftLine d, leftLineNum = leftLineNum d,
      rightLine = rightLine a, rightLineNum = rightLineNum a\<rparr>"

text \<open>
  What is pushed for one group of deletes and the adds that follow: the \<open>for\<close> loop over
  \<open>j < maxLen\<close> when both are non-empty, the deletes alone otherwise.
\<close>

definition mergeRun :: "entry list \<Rightarrow> entry list \<Rightarrow> entry list" where
  "mergeRun deletes adds =
     (if length deletes > 0 \<and> length adds > 0 then
        (let maxLen = max (length deletes) (length adds)
         in map (\<lambda>j. if j < length deletes \<and> j < length adds
                      then modifiedEntry (deletes ! j) (adds ! j)
                      else if j < length deletes then deletes ! j
                      else adds ! j) [0..<maxLen])
      else deletes)"

function mergeLoop :: "entry list \<Rightarrow> nat \<Rightarrow> entry list \<Rightarrow> entry list" where
  "mergeLoop result i merged =
     (if i < length result then
        (if type (result ! i) = Deleted then
           (case collectType Deleted result i [] of (i1, deletes) \<Rightarrow>
            case collectType Added result i1 [] of (i2, adds) \<Rightarrow>
              mergeLoop result i2 (merged @ mergeRun deletes adds))
         else if type (result ! i) = Added then mergeLoop result (i + 1) (merged @ [result ! i])
         else mergeLoop result (i + 1) (merged @ [result ! i]))
      else merged)"
  by pat_completeness auto
termination
proof -
  have ge: "i \<le> fst (collectType t r i acc)" for t r i acc
    by (induction t r i acc rule: collectType.induct) (subst collectType.simps, auto)
  have gt: "i < length r \<Longrightarrow> type (r ! i) = t \<Longrightarrow> i < fst (collectType t r i acc)" for t r i acc
    using ge [of "i + 1" t r "acc @ [r ! i]"] by (subst collectType.simps) simp
  have le: "i \<le> length r \<Longrightarrow> fst (collectType t r i acc) \<le> length r" for t r i acc
    by (induction t r i acc rule: collectType.induct) (subst collectType.simps, auto)
  show ?thesis
  proof (relation "measure (\<lambda>(result, i, merged). length result - i)", goal_cases)
    case 1
    show ?case by simp
  next
    case (2 result i merged i1 deletes i2 adds)
    have "i < i1" using 2 gt [of i result Deleted "[]"] by (metis fst_conv)
    moreover have "i1 \<le> i2" using 2 ge [of i1 Added result "[]"] by (metis fst_conv)
    ultimately show ?case using 2 by simp
  next
    case 3
    then show ?case by simp
  next
    case 4
    then show ?case by simp
  qed
qed

declare mergeLoop.simps [simp del]

definition mergePhase :: "entry list \<Rightarrow> entry list" where
  "mergePhase result = mergeLoop result 0 []"

text \<open>
  The first half of \<open>computeLineDiff\<close>, up to the raw \<open>result\<close> array;
  \<open>leftLines.map((_, i) => i)\<close> is the list of the indices.
\<close>

definition rawDiff ::
  "(jsstring \<Rightarrow> jsstring) \<Rightarrow> jsstring list \<Rightarrow> jsstring list \<Rightarrow> options \<Rightarrow> entry list" where
  "rawDiff toLowerCase leftLines rightLines opts =
     (case (if ignoreBlankLines opts then filterBlank leftLines
            else (leftLines, [0..<length leftLines])) of
        (leftFiltered, leftMapping) \<Rightarrow>
      case (if ignoreBlankLines opts then filterBlank rightLines
            else (rightLines, [0..<length rightLines])) of
        (rightFiltered, rightMapping) \<Rightarrow>
      let leftProcessed = map (processLine toLowerCase opts) leftFiltered;
          rightProcessed = map (processLine toLowerCase opts) rightFiltered;
          lcs = computeLCS leftProcessed rightProcessed
      in diffLoop leftFiltered leftMapping rightFiltered rightMapping lcs 0 0 0 [])"

definition computeLineDiff ::
  "(jsstring \<Rightarrow> jsstring) \<Rightarrow> jsstring list \<Rightarrow> jsstring list \<Rightarrow> options \<Rightarrow> entry list" where
  "computeLineDiff toLowerCase leftLines rightLines opts =
     mergePhase (rawDiff toLowerCase leftLines rightLines opts)"

section \<open>generateUnifiedPatch\<close>

text \<open>\<open>split('\n')\<close> and \<open>join('\n')\<close>; the line feed is the code unit 10.\<close>

fun splitLines :: "jsstring \<Rightarrow> jsstring list" where
  "splitLines [] = [[]]"
| "splitLines (c # cs) =
     (if c = 0x0A then [] # splitLines cs
      else (case splitLines cs of [] \<Rightarrow> [[c]] | l # ls \<Rightarrow> (c # l) # ls))"

fun joinLines :: "jsstring list \<Rightarrow> jsstring" where
  "joinLines [] = []"
| "joinLines [l] = l"
| "joinLines (l # ls) = l @ [0x0A] @ joinLines ls"

text \<open>
  A number in a template literal is printed in decimal (line numbers and counts are far
  below the magnitude where JavaScript switches notation); \<open>null\<close> and \<open>undefined\<close> are
  printed as their names.
\<close>

definition digitChar :: "nat \<Rightarrow> jschar" where
  "digitChar d = of_nat (48 + d)"

function decimal :: "nat \<Rightarrow> jsstring" where
  "decimal n = (if n < 10 then [digitChar n] else decimal (n div 10) @ [digitChar (n mod 10)])"
  by pat_completeness auto
termination
  by (relation "measure id") auto

declare decimal.simps [simp del]

definition lineText :: "jsline \<Rightarrow> jsstring" where
  "lineText l = (case l of Str s \<Rightarrow> s | Null \<Rightarrow> js ''null'' | Undefined \<Rightarrow> js ''undefined'')"

text \<open>\<open>entry.leftLineNum || leftLineNum\<close>: \<open>null\<close>, \<open>NaN\<close> and \<open>0\<close> are falsy.\<close>

definition numOr :: "jsnum \<Rightarrow> nat \<Rightarrow> nat" where
  "numOr x d = (case x of Num n \<Rightarrow> if n = 0 then d else n | NullNum \<Rightarrow> d | NaN \<Rightarrow> d)"

text \<open>The variables of the loop over the diff.\<close>

record patchState =
  leftLineNum' :: nat
  rightLineNum' :: nat
  currentHunk :: "jsstring list"
  hunkLeftStart :: nat
  hunkRightStart :: nat
  hunkLeftCount :: nat
  hunkRightCount :: nat

definition patchInit :: patchState where
  "patchInit = \<lparr>leftLineNum' = 1, rightLineNum' = 1, currentHunk = [],
                hunkLeftStart = 0, hunkRightStart = 0, hunkLeftCount = 0, hunkRightCount = 0\<rparr>"

definition patchStep :: "entry \<Rightarrow> patchState \<Rightarrow> patchState" where
  "patchStep e st =
     (if type e = Unchanged then
        (let st1 = (if length (currentHunk st) > 0
                    then st\<lparr>currentHunk := currentHunk st @ [0x20 # lineText (leftLine e)],
                            hunkLeftCount := hunkLeftCount st + 1,
                            hunkRightCount := hunkRightCount st + 1\<rparr>
                    else st)
         in st1\<lparr>leftLineNum' := leftLineNum' st1 + 1, rightLineNum' := rightLineNum' st1 + 1\<rparr>)
      else
        (let st1 = (if length (currentHunk st) = 0
                    then st\<lparr>hunkLeftStart := numOr (leftLineNum e) (leftLineNum' st),
                            hunkRightStart := numOr (rightLineNum e) (rightLineNum' st),
                            hunkLeftCount := 0,
                            hunkRightCount := 0\<rparr>
                    else st)
         in if type e = Deleted then
              st1\<lparr>currentHunk := currentHunk st1 @ [0x2D # lineText (leftLine e)],
                   hunkLeftCount := hunkLeftCount st1 + 1,
                   leftLineNum' := leftLineNum' st1 + 1\<rparr>
            else if type e = Added then
              st1\<lparr>currentHunk := currentHunk st1 @ [0x2B # lineText (rightLine e)],
                   hunkRightCount := hunkRightCount st1 + 1,
                   rightLineNum' := rightLineNum' st1 + 1\<rparr>
            else if type e = Modified then
              st1\<lparr>currentHunk := currentHunk st1 @ [0x2D # lineText (leftLine e)]
                                                  @ [0x2B # lineText (rightLine e)],
                   hunkLeftCount := hunkLeftCount st1 + 1,
                   hunkRightCount := hunkRightCount st1 + 1,
                   leftLineNum' := leftLineNum' st1 + 1,
                   rightLineNum' := rightLineNum' st1 + 1\<rparr>
            else st1))"

definition rangeLine :: "patchState \<Rightarrow> jsstring" where
  "rangeLine st =
     js ''@@ -'' @ decimal (hunkLeftStart st) @ js '','' @ decimal (hunkLeftCount st) @
     js '' +'' @ decimal (hunkRightStart st) @ js '','' @ decimal (hunkRightCount st) @ js '' @@''"

definition flushHunk :: "jsstring list \<Rightarrow> patchState \<Rightarrow> jsstring list" where
  "flushHunk lines st =
     (if length (currentHunk st) > 0 then lines @ [rangeLine st] @ currentHunk st else lines)"

text \<open>
  The array \<open>lines\<close> just before \<open>lines.join('\n')\<close>, from the diff; \<open>flushHunk\<close> is called
  once, after the loop.
\<close>

definition patchLines :: "entry list \<Rightarrow> jsstring \<Rightarrow> jsstring \<Rightarrow> jsstring list" where
  "patchLines diff leftFileName rightFileName =
     flushHunk [js ''--- '' @ leftFileName, js ''+++ '' @ rightFileName]
       (fold patchStep diff patchInit)"

definition generateUnifiedPatch ::
  "(jsstring \<Rightarrow> jsstring) \<Rightarrow> jsstring \<Rightarrow> jsstring \<Rightarrow> jsstring \<Rightarrow> jsstring \<Rightarrow> jsstring" where
  "generateUnifiedPatch toLowerCase leftCode rightCode leftFileName rightFileName =
     (let leftLines = splitLines leftCode;
          rightLines = splitLines rightCode;
          diff = computeLineDiff toLowerCase leftLines rightLines defaultOptions
      in joinLines (patchLines diff leftFileName rightFileName))"

text \<open>The default file names of \<open>generateUnifiedPatch\<close>.\<close>

definition defaultLeftFileName :: jsstring where
  "defaultLeftFileName = js ''original''"

definition defaultRightFileName :: jsstring where
  "defaultRightFileName = js ''modified''"

text \<open>The diff the application computes from its two texts (the \<open>useMemo\<close> of \<open>App\<close>).\<close>

definition appDiff ::
  "(jsstring \<Rightarrow> jsstring) \<Rightarrow> jsstring \<Rightarrow> jsstring \<Rightarrow> options \<Rightarrow> entry list" where
  "appDiff toLowerCase leftCode rightCode opts =
     computeLineDiff toLowerCase (splitLines leftCode) (splitLines rightCode) opts"

section \<open>Notions used to state and prove the properties\<close>

subsection \<open>Alignment zones\<close>

text \<open>
  The quantity the loop of \<open>computeViewZones\<close> maintains: the heights flushed so far plus
  the pending counter.
\<close>

definition zoneTotal :: "zone list \<times> jsnum \<times> nat \<Rightarrow> nat" where
  "zoneTotal st = (case st of (zones, c, p) \<Rightarrow> sum_list (map heightInLines zones) + p)"

definition needsPlaceholder :: "side \<Rightarrow> entry \<Rightarrow> bool" where
  "needsPlaceholder s e = (lineNumOn s e = NullNum \<and> lineNumOff s e \<noteq> NullNum)"


subsection \<open>Longest common subsequences\<close>

text \<open>
  The length of a longest common subsequence of two lists: the greatest length among the
  subsequences of the first that are subsequences of the second.
\<close>

definition lcsLength :: "'a list \<Rightarrow> 'a list \<Rightarrow> nat" where
  "lcsLength xs ys = Max (set (map length (filter (\<lambda>zs. subseq zs ys) (subseqs xs))))"

text \<open>
  The selection the specification describes, on index pairs: from \<open>(i, j)\<close> step
  diagonally on equal keys, otherwise move toward the neighbour with the larger length, and
  on a tie decrement the right index. The length at \<open>(i, j)\<close> is that of the prefixes of
  lengths \<open>i\<close> and \<open>j\<close>.
\<close>

function selectedLCS :: "'a list \<Rightarrow> 'a list \<Rightarrow> nat \<Rightarrow> nat \<Rightarrow> (nat \<times> nat) list" where
  "selectedLCS l r i j =
     (if i = 0 \<or> j = 0 then []
      else if l ! (i - 1) = r ! (j - 1) then selectedLCS l r (i - 1) (j - 1) @ [(i - 1, j - 1)]
      else if lcsLength (take (i - 1) l) (take j r) > lcsLength (take i l) (take (j - 1) r)
      then selectedLCS l r (i - 1) j
      else if lcsLength (take (i - 1) l) (take j r) < lcsLength (take i l) (take (j - 1) r)
      then selectedLCS l r i (j - 1)
      else selectedLCS l r i (j - 1))"
  by pat_completeness auto
termination
  by (relation "measure (\<lambda>(l, r, i, j). i + j)") auto

declare selectedLCS.simps [simp del]

text \<open>The recurrence of the table, and the invariant of the loops that fill it.\<close>

fun lcsLen :: "'a list \<Rightarrow> 'a list \<Rightarrow> nat \<Rightarrow> nat \<Rightarrow> nat" where
  "lcsLen l r 0 j = 0"
| "lcsLen l r (Suc i) 0 = 0"
| "lcsLen l r (Suc i) (Suc j) =
     (if l ! i = r ! j then lcsLen l r i j + 1
      else max (lcsLen l r i (Suc j)) (lcsLen l r (Suc i) j))"

definition tableInv :: "'a list \<Rightarrow> 'a list \<Rightarrow> nat list list \<Rightarrow> nat \<Rightarrow> nat \<Rightarrow> bool" where
  "tableInv l r dp i j =
     (length dp = Suc (length l) \<and>
      (\<forall>a \<le> length l. length (dp ! a) = Suc (length r)) \<and>
      (\<forall>a \<le> length l. dp ! a ! 0 = 0) \<and>
      (\<forall>a \<le> length l. \<forall>b \<le> length r. a < i \<or> (a = i \<and> b \<le> j) \<longrightarrow> dp ! a ! b = lcsLen l r a b))"

definition matchOf :: "'a list \<Rightarrow> nat \<times> nat \<Rightarrow> 'a lcs_match" where
  "matchOf l p = \<lparr>leftIndex = fst p, rightIndex = snd p, value' = l ! fst p\<rparr>"


subsection \<open>The main loop as a walk over the matches\<close>

text \<open>
  What the main loop pushes, as a function of the index pairs of the matches still to
  come and of the two indices; and the condition on the matches under which the loop
  follows it: each match lies at or after the indices and inside the arrays.
\<close>

fun walk ::
  "jsstring list \<Rightarrow> nat list \<Rightarrow> jsstring list \<Rightarrow> nat list \<Rightarrow> (nat \<times> nat) list \<Rightarrow> nat \<Rightarrow> nat \<Rightarrow> entry list" where
  "walk lf lm rf rm [] li ri =
     map (deletedEntry lf lm) [li..<length lf] @ map (addedEntry rf rm) [ri..<length rf]"
| "walk lf lm rf rm (p # ps) li ri =
     map (deletedEntry lf lm) [li..<fst p] @ map (addedEntry rf rm) [ri..<snd p] @
     [unchangedEntry lf lm rf rm (fst p) (snd p)] @ walk lf lm rf rm ps (fst p + 1) (snd p + 1)"

fun validMatches :: "nat \<Rightarrow> nat \<Rightarrow> nat \<Rightarrow> nat \<Rightarrow> (nat \<times> nat) list \<Rightarrow> bool" where
  "validMatches m n li ri [] = True"
| "validMatches m n li ri (p # ps) =
     (li \<le> fst p \<and> fst p < m \<and> ri \<le> snd p \<and> snd p < n \<and> validMatches m n (fst p + 1) (snd p + 1) ps)"

definition indexPair :: "'a lcs_match \<Rightarrow> nat \<times> nat" where
  "indexPair p = (leftIndex p, rightIndex p)"

subsection \<open>The merge phase on lists\<close>

text \<open>
  \<open>pairRuns\<close> is the pairing the specification describes for a run of deletes and the run
  of adds after it; \<open>mergeRuns\<close> is the merge loop read on the list instead of on indices.
\<close>

definition isDeleted :: "entry \<Rightarrow> bool" where
  "isDeleted e = (type e = Deleted)"

definition isAdded :: "entry \<Rightarrow> bool" where
  "isAdded e = (type e = Added)"

definition pairRuns :: "entry list \<Rightarrow> entry list \<Rightarrow> entry list" where
  "pairRuns ds as = map (\<lambda>(d, a). modifiedEntry d a) (zip ds as) @ drop (length as) ds @ drop (length ds) as"

function mergeRuns :: "entry list \<Rightarrow> entry list" where
  "mergeRuns [] = []"
| "mergeRuns (e # es) =
     (if isDeleted e
      then mergeRun (takeWhile isDeleted (e # es)) (takeWhile isAdded (dropWhile isDeleted (e # es)))
             @ mergeRuns (dropWhile isAdded (dropWhile isDeleted (e # es)))
      else e # mergeRuns es)"
  by pat_completeness auto
termination
proof (relation "measure length", goal_cases)
  case 1
  show ?case by simp
next
  case (2 e es)
  have "length (dropWhile isAdded (dropWhile isDeleted es)) \<le> length es"
    by (meson le_trans length_dropWhile_le)
  then show ?case using 2 by simp
next
  case 3
  then show ?case by simp
qed

declare mergeRuns.simps(2) [simp del]

subsection \<open>The two sides of a diff\<close>

text \<open>
  The left (right) side of a diff: the line and line number of every entry that has a left
  (right) line number, in entry order. \<open>keptIndices\<close> lists the indices of the lines
  that take part in the comparison: every index, or with \<open>ignoreBlankLines\<close> those of the
  lines that are not empty and not all white space.
\<close>

definition leftSide :: "entry list \<Rightarrow> (jsline \<times> jsnum) list" where
  "leftSide es = map (\<lambda>e. (leftLine e, leftLineNum e)) (filter (\<lambda>e. leftLineNum e \<noteq> NullNum) es)"

definition rightSide :: "entry list \<Rightarrow> (jsline \<times> jsnum) list" where
  "rightSide es = map (\<lambda>e. (rightLine e, rightLineNum e)) (filter (\<lambda>e. rightLineNum e \<noteq> NullNum) es)"

definition oneSided :: "entry \<Rightarrow> bool" where
  "oneSided e = ((if type e = Deleted then rightLineNum e = NullNum else True) \<and>
                 (if type e = Added then leftLineNum e = NullNum else True))"

definition keptIndices :: "options \<Rightarrow> jsstring list \<Rightarrow> nat list" where
  "keptIndices opts lines =
     (if ignoreBlankLines opts
      then filter (\<lambda>i. \<not> list_all isWhiteSpace (lines ! i)) [0..<length lines]
      else [0..<length lines])"

definition sourceLines :: "options \<Rightarrow> jsstring list \<Rightarrow> jsstring list \<times> nat list" where
  "sourceLines opts lines =
     (if ignoreBlankLines opts then filterBlank lines else (lines, [0..<length lines]))"

subsection \<open>Errors of a call\<close>





subsection \<open>The hunk of a patch\<close>

text \<open>
  The body lines one entry contributes to a hunk, the number of entries that count on the
  left and on the right of a range line, and the text of a range line. \<open>singleHunk\<close> is
  the one hunk of a diff: it opens at the first entry that is not unchanged and holds every
  entry from there to the end; a diff of unchanged entries has none.
\<close>

definition hunkBody :: "entry \<Rightarrow> jsstring list" where
  "hunkBody e =
     (if type e = Unchanged then [0x20 # lineText (leftLine e)]
      else if type e = Deleted then [0x2D # lineText (leftLine e)]
      else if type e = Added then [0x2B # lineText (rightLine e)]
      else [0x2D # lineText (leftLine e), 0x2B # lineText (rightLine e)])"

definition leftCount :: "entry list \<Rightarrow> nat" where
  "leftCount es = length (filter (\<lambda>e. type e \<noteq> Added) es)"

definition rightCount :: "entry list \<Rightarrow> nat" where
  "rightCount es = length (filter (\<lambda>e. type e \<noteq> Deleted) es)"

definition rangeText :: "nat \<Rightarrow> nat \<Rightarrow> nat \<Rightarrow> nat \<Rightarrow> jsstring" where
  "rangeText ls lc rs rc =
     js ''@@ -'' @ decimal ls @ js '','' @ decimal lc @ js '' +'' @ decimal rs @ js '','' @ decimal rc @ js '' @@''"

definition isUnchanged :: "entry \<Rightarrow> bool" where
  "isUnchanged e = (type e = Unchanged)"

definition singleHunk :: "entry list \<Rightarrow> jsstring list" where
  "singleHunk diff =
     (case dropWhile isUnchanged diff of
        [] \<Rightarrow> []
      | e # es \<Rightarrow>
          rangeText (numOr (leftLineNum e) (Suc (length (takeWhile isUnchanged diff))))
                    (leftCount (e # es))
                    (numOr (rightLineNum e) (Suc (length (takeWhile isUnchanged diff))))
                    (rightCount (e # es))
          # concat (map hunkBody (e # es)))"

text \<open>
  The hunk of a diff has an empty left range when it has entries and none of them has a
  left line: every entry from the first changed one on is added.
\<close>

definition emptyLeftRange :: "entry list \<Rightarrow> bool" where
  "emptyLeftRange diff =
     (dropWhile isUnchanged diff \<noteq> [] \<and> leftCount (dropWhile isUnchanged diff) = 0)"

text \<open>
  The hunks as the specification describes them: one hunk per maximal run of entries that
  are not unchanged, holding that run only; \<open>l\<close> and \<open>r\<close> are the running line numbers.
\<close>

function minimalHunks :: "nat \<Rightarrow> nat \<Rightarrow> entry list \<Rightarrow> jsstring list" where
  "minimalHunks l r [] = []"
| "minimalHunks l r (e # es) =
     (if isUnchanged e then minimalHunks (l + 1) (r + 1) es
      else rangeText (numOr (leftLineNum e) l)
                     (leftCount (takeWhile (\<lambda>x. \<not> isUnchanged x) (e # es)))
                     (numOr (rightLineNum e) r)
                     (rightCount (takeWhile (\<lambda>x. \<not> isUnchanged x) (e # es)))
           # concat (map hunkBody (takeWhile (\<lambda>x. \<not> isUnchanged x) (e # es)))
           @ minimalHunks (l + leftCount (takeWhile (\<lambda>x. \<not> isUnchanged x) (e # es)))
                          (r + rightCount (takeWhile (\<lambda>x. \<not> isUnchanged x) (e # es)))
                          (dropWhile (\<lambda>x. \<not> isUnchanged x) (e # es)))"
  by pat_completeness auto
termination
  by (relation "measure (\<lambda>(l, r, es). length es)") (auto simp: le_imp_less_Suc length_dropWhile_le)

subsection \<open>Applying a patch\<close>

text \<open>
  The repository has no code that applies a patch; the application below is that of the
  unified format as POSIX \<open>diff -u\<close> and GNU diffutils define it, on the lines of the left
  text (the text split at line feeds, as \<open>generateUnifiedPatch\<close> splits it).

  After the two header lines \<open>---\<close> and \<open>+++\<close>, a range line
  \<open>@@ -ls,lc +rs,rc @@\<close> opens a hunk; a count that is left out is 1
  (\<open>@@ -3 +3,2 @@\<close>), and text after the closing \<open>@@\<close> is a section heading without
  meaning. A left range of \<open>lc > 0\<close> lines begins at line \<open>ls\<close>. An empty left range
  (\<open>lc = 0\<close>) names the line before it: \<open>@@ -1,0 +2 @@\<close> inserts after line 1, and
  \<open>@@ -0,0 +1 @@\<close> before the first line. The left lines before the hunk are kept. Of
  the body lines, those starting with a space or \<open>-\<close> must equal the next left lines,
  which they consume, and those starting with a space or \<open>+\<close> are the output; \<open>lc\<close> and
  \<open>rc\<close> count the body lines of each side. The start of the right range plays no part in
  the application. The left lines after the last hunk are kept. The result is \<open>None\<close> when
  the patch does not apply.
\<close>

definition isDigit :: "jschar \<Rightarrow> bool" where
  "isDigit c = (0x30 \<le> c \<and> c \<le> 0x39)"

definition parseNat :: "jsstring \<Rightarrow> nat" where
  "parseNat s = foldl (\<lambda>n c. 10 * n + (unat c - 48)) 0 s"

fun stripPrefix :: "'a list \<Rightarrow> 'a list \<Rightarrow> 'a list option" where
  "stripPrefix [] ys = Some ys"
| "stripPrefix (x # xs) [] = None"
| "stripPrefix (x # xs) (y # ys) = (if x = y then stripPrefix xs ys else None)"

definition parseNumber :: "jsstring \<Rightarrow> (nat \<times> jsstring) option" where
  "parseNumber s =
     (if takeWhile isDigit s = [] then None
      else Some (parseNat (takeWhile isDigit s), dropWhile isDigit s))"

text \<open>One side of a range line, \<open>start,count\<close> or \<open>start\<close>, and the text after it.\<close>

definition parseSide :: "jsstring \<Rightarrow> (nat \<times> nat \<times> jsstring) option" where
  "parseSide s =
     (case parseNumber s of None \<Rightarrow> None | Some (start, s1) \<Rightarrow>
     (case stripPrefix (js '','') s1 of None \<Rightarrow> Some (start, 1, s1) | Some s2 \<Rightarrow>
     (case parseNumber s2 of None \<Rightarrow> None | Some (count, s3) \<Rightarrow> Some (start, count, s3))))"

definition parseRange :: "jsstring \<Rightarrow> (nat \<times> nat \<times> nat \<times> nat) option" where
  "parseRange line =
     (case stripPrefix (js ''@@ -'') line of None \<Rightarrow> None | Some s1 \<Rightarrow>
     (case parseSide s1 of None \<Rightarrow> None | Some (ls, lc, s2) \<Rightarrow>
     (case stripPrefix (js '' +'') s2 of None \<Rightarrow> None | Some s3 \<Rightarrow>
     (case parseSide s3 of None \<Rightarrow> None | Some (rs, rc, s4) \<Rightarrow>
     (case stripPrefix (js '' @@'') s4 of None \<Rightarrow> None | Some heading \<Rightarrow>
        Some (ls, lc, rs, rc))))))"

text \<open>The number of the first left line at or after a left range.\<close>

definition rangeFirst :: "nat \<Rightarrow> nat \<Rightarrow> nat" where
  "rangeFirst ls lc = (if lc = 0 then ls + 1 else ls)"

text \<open>
  \<open>applyHunks ps lc rc left pos\<close>: \<open>ps\<close> are the patch lines still to read, \<open>lc\<close> and
  \<open>rc\<close> the body lines the open hunk still has on each side, \<open>left\<close> the left lines not
  yet consumed and \<open>pos\<close> the number of the first of them.
\<close>

fun applyHunks ::
  "jsstring list \<Rightarrow> nat \<Rightarrow> nat \<Rightarrow> jsstring list \<Rightarrow> nat \<Rightarrow> jsstring list option" where
  "applyHunks [] lc rc left pos = (if lc = 0 \<and> rc = 0 then Some left else None)"
| "applyHunks (p # ps) lc rc left pos =
     (if lc = 0 \<and> rc = 0 then
        (case parseRange p of
           None \<Rightarrow> None
         | Some (ls, lc', rs, rc') \<Rightarrow>
             if rangeFirst ls lc' < pos \<or> length left < rangeFirst ls lc' - pos then None
             else map_option ((@) (take (rangeFirst ls lc' - pos) left))
                    (applyHunks ps lc' rc' (drop (rangeFirst ls lc' - pos) left) (rangeFirst ls lc')))
      else
        (case p of
           [] \<Rightarrow> None
         | c # text \<Rightarrow>
             if c = 0x20 then
               (if 0 < lc \<and> 0 < rc \<and> left \<noteq> [] \<and> hd left = text
                then map_option ((#) text) (applyHunks ps (lc - 1) (rc - 1) (tl left) (pos + 1))
                else None)
             else if c = 0x2D then
               (if 0 < lc \<and> left \<noteq> [] \<and> hd left = text
                then applyHunks ps (lc - 1) rc (tl left) (pos + 1)
                else None)
             else if c = 0x2B then
               (if 0 < rc then map_option ((#) text) (applyHunks ps lc (rc - 1) left pos) else None)
             else None))"

definition applyPatch :: "jsstring \<Rightarrow> jsstring \<Rightarrow> jsstring option" where
  "applyPatch patch leftCode =
     (case splitLines patch of
        h1 # h2 # hunks \<Rightarrow>
          if take 4 h1 = js ''--- '' \<and> take 4 h2 = js ''+++ ''
          then map_option joinLines (applyHunks hunks 0 0 (splitLines leftCode) 1)
          else None
      | _ \<Rightarrow> None)"

subsection \<open>Entries of the shape their type asks for\<close>

definition wellFormed :: "entry \<Rightarrow> bool" where
  "wellFormed e =
     (case type e of
        Unchanged \<Rightarrow> leftLineNum e \<noteq> NullNum \<and> rightLineNum e \<noteq> NullNum \<and> leftLine e = rightLine e
      | Deleted \<Rightarrow> leftLineNum e \<noteq> NullNum \<and> rightLineNum e = NullNum
      | Added \<Rightarrow> leftLineNum e = NullNum \<and> rightLineNum e \<noteq> NullNum
      | Modified \<Rightarrow> leftLineNum e \<noteq> NullNum \<and> rightLineNum e \<noteq> NullNum)"

section \<open>Alignment zones\<close>

lemma zoneTotal_step:
  "zoneTotal (viewZoneStep s e st) = zoneTotal st + (if needsPlaceholder s e then 1 else 0)"
  by (cases st) (simp add: zoneTotal_def viewZoneStep_def needsPlaceholder_def Let_def)

lemma zoneTotal_fold:
  "zoneTotal (fold (viewZoneStep s) diff st) = zoneTotal st + length (filter (needsPlaceholder s) diff)"
  by (induction diff arbitrary: st) (simp_all add: zoneTotal_step)

text \<open>
  C8. For every entry sequence and each side, the heights of the zones returned by
  \<open>computeViewZones\<close> add up to the number of entries whose line number on that side is
  \<open>null\<close> while the line number on the other side is not \<open>null\<close>.
\<close>

theorem computeViewZones_height_sum:
  "sum_list (map heightInLines (computeViewZones diff s)) =
     length (filter (\<lambda>e. lineNumOn s e = NullNum \<and> lineNumOff s e \<noteq> NullNum) diff)"
proof -
  obtain zones c p where st: "fold (viewZoneStep s) diff ([], Num 0, 0) = (zones, c, p)"
    by (cases "fold (viewZoneStep s) diff ([], Num 0, 0)") auto
  have "zoneTotal (zones, c, p) = length (filter (needsPlaceholder s) diff)"
    using zoneTotal_fold [of s diff "([], Num 0, 0)"] by (simp add: st zoneTotal_def)
  moreover have "sum_list (map heightInLines (computeViewZones diff s)) = zoneTotal (zones, c, p)"
    by (simp add: computeViewZones_def st zoneTotal_def)
  moreover have "needsPlaceholder s = (\<lambda>e. lineNumOn s e = NullNum \<and> lineNumOff s e \<noteq> NullNum)"
    by (rule ext) (simp add: needsPlaceholder_def)
  ultimately show ?thesis by simp
qed

section \<open>The sequence matcher\<close>

subsection \<open>The table holds the recurrence\<close>

lemma lcsLen_0_right [simp]: "lcsLen l r i 0 = 0"
  by (cases i) simp_all

lemma tableInv_init: "tableInv l r (replicate (Suc (length l)) (replicate (Suc (length r)) 0)) 0 (length r)"
  by (auto simp: tableInv_def nth_Cons' simp del: replicate_Suc)

lemma tableInv_cell:
  assumes inv: "tableInv l r dp (Suc i) j" and i: "i < length l" and j: "j < length r"
  shows "tableInv l r (dpCell l r (Suc i) (Suc j) dp) (Suc i) (Suc j)"
proof -
  define v where "v = (if l ! i = r ! j then dp ! i ! j + 1 else max (dp ! i ! Suc j) (dp ! Suc i ! j))"
  have eq: "dpCell l r (Suc i) (Suc j) dp = dp[Suc i := (dp ! Suc i)[Suc j := v]]"
    by (simp add: dpCell_def v_def)
  have len: "length dp = Suc (length l)" and rows: "\<And>a. a \<le> length l \<Longrightarrow> length (dp ! a) = Suc (length r)"
    and col: "\<And>a. a \<le> length l \<Longrightarrow> dp ! a ! 0 = 0"
    and vals: "\<And>a b. a \<le> length l \<Longrightarrow> b \<le> length r \<Longrightarrow> a < Suc i \<or> (a = Suc i \<and> b \<le> j) \<Longrightarrow> dp ! a ! b = lcsLen l r a b"
    using inv by (auto simp: tableInv_def)
  have v: "v = lcsLen l r (Suc i) (Suc j)"
    using i j vals [of i j] vals [of i "Suc j"] vals [of "Suc i" j] by (simp add: v_def)
  show ?thesis
    unfolding tableInv_def eq
  proof (intro conjI allI impI)
    show "length (dp[Suc i := (dp ! Suc i)[Suc j := v]]) = Suc (length l)"
      using len by simp
  next
    fix a assume "a \<le> length l"
    then show "length (dp[Suc i := (dp ! Suc i)[Suc j := v]] ! a) = Suc (length r)"
      using len rows [of a] rows [of "Suc i"] i by (cases "a = Suc i") (simp_all add: nth_list_update)
  next
    fix a assume "a \<le> length l"
    then show "dp[Suc i := (dp ! Suc i)[Suc j := v]] ! a ! 0 = 0"
      using len col [of a] col [of "Suc i"] i by (cases "a = Suc i") (simp_all add: nth_list_update)
  next
    fix a b assume a: "a \<le> length l" and b: "b \<le> length r"
      and c: "a < Suc i \<or> a = Suc i \<and> b \<le> Suc j"
    show "dp[Suc i := (dp ! Suc i)[Suc j := v]] ! a ! b = lcsLen l r a b"
    proof (cases "a = Suc i \<and> b = Suc j")
      case True
      then show ?thesis using len rows [of "Suc i"] i j v by (simp add: nth_list_update)
    next
      case False
      then have "dp[Suc i := (dp ! Suc i)[Suc j := v]] ! a ! b = dp ! a ! b"
        using len a by (cases "a = Suc i") (simp_all add: nth_list_update)
      moreover have "dp ! a ! b = lcsLen l r a b"
        using vals [of a b] a b c False by auto
      ultimately show ?thesis by simp
    qed
  qed
qed

lemma tableInv_row:
  assumes "tableInv l r dp (Suc i) 0" "i < length l" "k \<le> length r"
  shows "tableInv l r (fold (dpCell l r (Suc i)) [1..<Suc k] dp) (Suc i) k"
  using assms(3)
proof (induction k)
  case 0
  then show ?case using assms(1) by simp
next
  case (Suc k)
  then have "tableInv l r (fold (dpCell l r (Suc i)) [1..<Suc k] dp) (Suc i) k" by simp
  then have "tableInv l r (dpCell l r (Suc i) (Suc k) (fold (dpCell l r (Suc i)) [1..<Suc k] dp)) (Suc i) (Suc k)"
    using assms(2) Suc.prems by (intro tableInv_cell) simp_all
  then show ?case by simp
qed

lemma tableInv_next_row:
  assumes "tableInv l r dp i (length r)"
  shows "tableInv l r dp (Suc i) 0"
  using assms unfolding tableInv_def by (auto simp: less_Suc_eq)

lemma tableInv_rows:
  assumes "k \<le> length l"
  shows "tableInv l r (fold (\<lambda>i. fold (dpCell l r i) [1..<Suc (length r)]) [1..<Suc k]
           (replicate (Suc (length l)) (replicate (Suc (length r)) 0))) k (length r)"
  using assms
proof (induction k)
  case 0
  then show ?case using tableInv_init by simp
next
  case (Suc k)
  then have "tableInv l r (fold (\<lambda>i. fold (dpCell l r i) [1..<Suc (length r)]) [1..<Suc k]
           (replicate (Suc (length l)) (replicate (Suc (length r)) 0))) k (length r)" by simp
  then have "tableInv l r (fold (dpCell l r (Suc k)) [1..<Suc (length r)]
           (fold (\<lambda>i. fold (dpCell l r i) [1..<Suc (length r)]) [1..<Suc k]
           (replicate (Suc (length l)) (replicate (Suc (length r)) 0)))) (Suc k) (length r)"
    using Suc.prems by (intro tableInv_row tableInv_next_row) simp_all
  then show ?case by simp
qed

lemma dpTable_lcsLen:
  assumes "i \<le> length l" "j \<le> length r"
  shows "dpTable l r ! i ! j = lcsLen l r i j"
proof -
  have "tableInv l r (dpTable l r) (length l) (length r)"
    using tableInv_rows [of "length l" l r] by (simp add: dpTable_def Let_def)
  then have "\<forall>a \<le> length l. \<forall>b \<le> length r. a < length l \<or> (a = length l \<and> b \<le> length r) \<longrightarrow>
      dpTable l r ! a ! b = lcsLen l r a b"
    unfolding tableInv_def by blast
  moreover have "i < length l \<or> (i = length l \<and> j \<le> length r)"
    using assms by auto
  ultimately show ?thesis using assms by blast
qed

subsection \<open>The recurrence is the length of a longest common subsequence\<close>

lemma subseq_snoc_cases:
  assumes "subseq zs (xs @ [x])"
  shows "subseq zs xs \<or> (\<exists>zs'. zs = zs' @ [x] \<and> subseq zs' xs)"
proof -
  obtain a b where ab: "zs = a @ b" "subseq a xs" "subseq b [x]"
    using assms by (auto simp: subseq_append_iff)
  from ab(3) have "b = [] \<or> b = [x]"
    by (cases b) (auto split: if_splits)
  then show ?thesis using ab by auto
qed

lemma subseq_butlast_snoc: "subseq (zs @ [x]) ys \<Longrightarrow> subseq zs ys"
proof -
  have "subseq zs (zs @ [x])" by (rule subseq_rev_drop_many) simp
  then show "subseq (zs @ [x]) ys \<Longrightarrow> subseq zs ys"
    by (rule subseq_order.order_trans)
qed

lemma lcsLen_upper:
  "i \<le> length l \<Longrightarrow> j \<le> length r \<Longrightarrow> subseq zs (take i l) \<Longrightarrow> subseq zs (take j r)
     \<Longrightarrow> length zs \<le> lcsLen l r i j"
proof (induction l r i j arbitrary: zs rule: lcsLen.induct)
  case (1 l r j)
  then show ?case by simp
next
  case (2 l r i)
  then show ?case by simp
next
  case (3 l r i j)
  have i: "i < length l" and j: "j < length r" using 3 by auto
  have tl: "take (Suc i) l = take i l @ [l ! i]" using i by (simp add: take_Suc_conv_app_nth)
  have tr: "take (Suc j) r = take j r @ [r ! j]" using j by (simp add: take_Suc_conv_app_nth)
  from "3.prems"(3) tl consider
      (L1) "subseq zs (take i l)" | (L2) zs' where "zs = zs' @ [l ! i]" "subseq zs' (take i l)"
    using subseq_snoc_cases [of zs "take i l" "l ! i"] by auto
  then show ?case
  proof cases
    case L1
    from "3.prems"(4) tr consider
      (R1) "subseq zs (take j r)" | (R2) zs'' where "zs = zs'' @ [r ! j]" "subseq zs'' (take j r)"
      using subseq_snoc_cases [of zs "take j r" "r ! j"] by auto
    then show ?thesis
    proof cases
      case R1
      show ?thesis
      proof (cases "l ! i = r ! j")
        case True
        then have "length zs \<le> lcsLen l r i j" using "3.IH"(1) [of zs] L1 R1 i j by simp
        then show ?thesis using True by simp
      next
        case False
        then have "length zs \<le> lcsLen l r i (Suc j)"
          using "3.IH"(2) [of zs] L1 "3.prems"(4) i j by simp
        then show ?thesis using False by simp
      qed
    next
      case R2
      show ?thesis
      proof (cases "l ! i = r ! j")
        case True
        have "subseq zs'' (take i l)" using L1 unfolding R2(1) by (rule subseq_butlast_snoc)
        then have "length zs'' \<le> lcsLen l r i j" using "3.IH"(1) [of zs''] R2(2) True i j by simp
        then show ?thesis using True R2(1) by simp
      next
        case False
        then have "length zs \<le> lcsLen l r i (Suc j)"
          using "3.IH"(2) [of zs] L1 "3.prems"(4) i j by simp
        then show ?thesis using False by simp
      qed
    qed
  next
    case L2
    from "3.prems"(4) tr consider
      (R1) "subseq zs (take j r)" | (R2) zs'' where "zs = zs'' @ [r ! j]" "subseq zs'' (take j r)"
      using subseq_snoc_cases [of zs "take j r" "r ! j"] by auto
    then show ?thesis
    proof cases
      case R1
      show ?thesis
      proof (cases "l ! i = r ! j")
        case True
        have "subseq zs' (take j r)" using R1 unfolding L2(1) by (rule subseq_butlast_snoc)
        then have "length zs' \<le> lcsLen l r i j" using "3.IH"(1) [of zs'] L2(2) True i j by simp
        then show ?thesis using True L2(1) by simp
      next
        case False
        then have "length zs \<le> lcsLen l r (Suc i) j"
          using "3.IH"(3) [of zs] R1 "3.prems"(3) i j by simp
        then show ?thesis using False by simp
      qed
    next
      case R2
      then have eq: "l ! i = r ! j" "zs' = zs''" using L2(1) by auto
      then have "length zs' \<le> lcsLen l r i j" using "3.IH"(1) [of zs'] L2(2) R2(2) i j by simp
      then show ?thesis using eq L2(1) by simp
    qed
  qed
qed

lemma lcsLen_attained:
  "i \<le> length l \<Longrightarrow> j \<le> length r \<Longrightarrow>
     \<exists>zs. subseq zs (take i l) \<and> subseq zs (take j r) \<and> length zs = lcsLen l r i j"
proof (induction l r i j rule: lcsLen.induct)
  case (1 l r j)
  then show ?case by simp
next
  case (2 l r i)
  then show ?case by simp
next
  case (3 l r i j)
  have i: "i < length l" and j: "j < length r" using 3 by auto
  have tl: "take (Suc i) l = take i l @ [l ! i]" using i by (simp add: take_Suc_conv_app_nth)
  have tr: "take (Suc j) r = take j r @ [r ! j]" using j by (simp add: take_Suc_conv_app_nth)
  show ?case
  proof (cases "l ! i = r ! j")
    case True
    then obtain zs where "subseq zs (take i l)" "subseq zs (take j r)" "length zs = lcsLen l r i j"
      using "3.IH"(1) i j by auto
    then have "subseq (zs @ [l ! i]) (take (Suc i) l) \<and> subseq (zs @ [l ! i]) (take (Suc j) r)
        \<and> length (zs @ [l ! i]) = lcsLen l r (Suc i) (Suc j)"
      using True tl tr by simp
    then show ?thesis by blast
  next
    case False
    show ?thesis
    proof (cases "lcsLen l r i (Suc j) \<ge> lcsLen l r (Suc i) j")
      case True
      obtain zs where "subseq zs (take i l)" "subseq zs (take (Suc j) r)" "length zs = lcsLen l r i (Suc j)"
        using "3.IH"(2) False i j by auto
      then have "subseq zs (take (Suc i) l) \<and> subseq zs (take (Suc j) r)
        \<and> length zs = lcsLen l r (Suc i) (Suc j)"
        using False True tl by (simp add: subseq_rev_drop_many)
      then show ?thesis by blast
    next
      case c: False
      obtain zs where "subseq zs (take (Suc i) l)" "subseq zs (take j r)" "length zs = lcsLen l r (Suc i) j"
        using "3.IH"(3) False i j by auto
      then have "subseq zs (take (Suc i) l) \<and> subseq zs (take (Suc j) r)
        \<and> length zs = lcsLen l r (Suc i) (Suc j)"
        using False c tr by (simp add: subseq_rev_drop_many)
      then show ?thesis by blast
    qed
  qed
qed

lemma lcsLength_eqI:
  assumes "subseq zs xs" "subseq zs ys" "length zs = n"
    and "\<And>ws. subseq ws xs \<Longrightarrow> subseq ws ys \<Longrightarrow> length ws \<le> n"
  shows "lcsLength xs ys = n"
  unfolding lcsLength_def
proof (rule Max_eqI)
  show "finite (set (map length (filter (\<lambda>zs. subseq zs ys) (subseqs xs))))" by (rule finite_set)
  show "n \<in> set (map length (filter (\<lambda>zs. subseq zs ys) (subseqs xs)))"
    using assms(1-3) by (simp add: image_iff) blast
  fix k assume "k \<in> set (map length (filter (\<lambda>zs. subseq zs ys) (subseqs xs)))"
  then obtain ws where "subseq ws xs" "subseq ws ys" "k = length ws"
    by auto
  then show "k \<le> n" using assms(4) by simp
qed

lemma lcsLength_take:
  assumes "i \<le> length l" "j \<le> length r"
  shows "lcsLength (take i l) (take j r) = lcsLen l r i j"
proof -
  obtain zs where "subseq zs (take i l)" "subseq zs (take j r)" "length zs = lcsLen l r i j"
    using lcsLen_attained [OF assms] by blast
  then show ?thesis
    using lcsLen_upper [OF assms] by (intro lcsLength_eqI [of zs]) auto
qed

subsection \<open>The backtracking is the specified selection\<close>

lemma lcsLen_Suc_Suc:
  "0 < i \<Longrightarrow> 0 < j \<Longrightarrow> lcsLen l r i j =
     (if l ! (i - 1) = r ! (j - 1) then lcsLen l r (i - 1) (j - 1) + 1
      else max (lcsLen l r (i - 1) j) (lcsLen l r i (j - 1)))"
  by (cases i; cases j) simp_all

lemma selectedLCS_unfold:
  "selectedLCS l r i j =
     (if i = 0 \<or> j = 0 then []
      else if l ! (i - 1) = r ! (j - 1) then selectedLCS l r (i - 1) (j - 1) @ [(i - 1, j - 1)]
      else if lcsLength (take (i - 1) l) (take j r) > lcsLength (take i l) (take (j - 1) r)
      then selectedLCS l r (i - 1) j
      else selectedLCS l r i (j - 1))"
  by (subst selectedLCS.simps) simp

lemma selectedLCS_induct [case_names base diag up left]:
  assumes "\<And>i j. i = 0 \<or> j = 0 \<Longrightarrow> P i j"
    and "\<And>i j. 0 < i \<Longrightarrow> 0 < j \<Longrightarrow> l ! (i - 1) = r ! (j - 1) \<Longrightarrow> P (i - 1) (j - 1) \<Longrightarrow> P i j"
    and "\<And>i j. 0 < i \<Longrightarrow> 0 < j \<Longrightarrow> l ! (i - 1) \<noteq> r ! (j - 1) \<Longrightarrow>
           lcsLength (take (i - 1) l) (take j r) > lcsLength (take i l) (take (j - 1) r) \<Longrightarrow>
           P (i - 1) j \<Longrightarrow> P i j"
    and "\<And>i j. 0 < i \<Longrightarrow> 0 < j \<Longrightarrow> l ! (i - 1) \<noteq> r ! (j - 1) \<Longrightarrow>
           \<not> lcsLength (take (i - 1) l) (take j r) > lcsLength (take i l) (take (j - 1) r) \<Longrightarrow>
           P i (j - 1) \<Longrightarrow> P i j"
  shows "P i j"
proof (induction "i + j" arbitrary: i j rule: less_induct)
  case less
  show ?case
  proof (cases "i = 0 \<or> j = 0")
    case True
    then show ?thesis by (rule assms(1))
  next
    case False
    then have pos: "0 < i" "0 < j" by auto
    show ?thesis
    proof (cases "l ! (i - 1) = r ! (j - 1)")
      case True
      have "P (i - 1) (j - 1)" using pos by (intro less) simp
      with pos True show ?thesis by (rule assms(2))
    next
      case neq: False
      show ?thesis
      proof (cases "lcsLength (take (i - 1) l) (take j r) > lcsLength (take i l) (take (j - 1) r)")
        case True
        have "P (i - 1) j" using pos by (intro less) simp
        with pos neq True show ?thesis by (rule assms(3))
      next
        case False
        have "P i (j - 1)" using pos by (intro less) simp
        with pos neq False show ?thesis by (rule assms(4))
      qed
    qed
  qed
qed

lemma list_all_bounds_mono:
  "list_all (\<lambda>p. fst p < a \<and> snd p < b \<and> Q p) ps \<Longrightarrow> a \<le> i \<Longrightarrow> b \<le> j
      \<Longrightarrow> list_all (\<lambda>p. fst p < (i::nat) \<and> snd p < (j::nat) \<and> Q p) ps"
  by (induction ps) auto

lemma selectedLCS_bounds:
  "list_all (\<lambda>p. fst p < i \<and> snd p < j \<and> l ! fst p = r ! snd p) (selectedLCS l r i j)"
proof (induction i j rule: selectedLCS_induct [of _ l r])
  case (base i j)
  then show ?case by (subst selectedLCS_unfold) auto
next
  case (diag i j)
  then show ?case
    using list_all_bounds_mono [of "i - 1" "j - 1" "\<lambda>p. l ! fst p = r ! snd p" _ i j]
    by (subst selectedLCS_unfold) simp
next
  case (up i j)
  then show ?case
    using list_all_bounds_mono [of "i - 1" j "\<lambda>p. l ! fst p = r ! snd p" _ i j]
    by (subst selectedLCS_unfold) simp
next
  case (left i j)
  then show ?case
    using list_all_bounds_mono [of i "j - 1" "\<lambda>p. l ! fst p = r ! snd p" _ i j]
    by (subst selectedLCS_unfold) simp
qed

lemma selectedLCS_sorted:
  "sorted_wrt (<) (map fst (selectedLCS l r i j)) \<and> sorted_wrt (<) (map snd (selectedLCS l r i j))"
proof (induction i j rule: selectedLCS_induct [of _ l r])
  case (base i j)
  then show ?case by (subst selectedLCS_unfold, subst (2) selectedLCS_unfold) auto
next
  case (diag i j)
  have b: "\<forall>p \<in> set (selectedLCS l r (i - 1) (j - 1)). fst p < i - 1 \<and> snd p < j - 1"
    using selectedLCS_bounds [of "i - 1" "j - 1" l r] by (auto simp: list_all_iff)
  have eq: "selectedLCS l r i j = selectedLCS l r (i - 1) (j - 1) @ [(i - 1, j - 1)]"
    using diag by (subst selectedLCS_unfold) simp
  show ?case unfolding eq using diag b by (auto simp: sorted_wrt_append)
next
  case (up i j)
  have eq: "selectedLCS l r i j = selectedLCS l r (i - 1) j"
    using up by (subst selectedLCS_unfold) simp
  show ?case unfolding eq using up by simp
next
  case (left i j)
  have eq: "selectedLCS l r i j = selectedLCS l r i (j - 1)"
    using left by (subst selectedLCS_unfold) simp
  show ?case unfolding eq using left by simp
qed

lemma selectedLCS_length:
  "i \<le> length l \<Longrightarrow> j \<le> length r \<Longrightarrow> length (selectedLCS l r i j) = lcsLen l r i j"
proof (induction i j rule: selectedLCS_induct [of _ l r])
  case (base i j)
  then show ?case by (subst selectedLCS_unfold) auto
next
  case (diag i j)
  then show ?case
    by (subst selectedLCS_unfold, subst lcsLen_Suc_Suc) simp_all
next
  case (up i j)
  then have "lcsLen l r i (j - 1) < lcsLen l r (i - 1) j"
    by (simp add: lcsLength_take)
  then show ?case using up
    by (subst selectedLCS_unfold, subst lcsLen_Suc_Suc) simp_all
next
  case (left i j)
  then have "\<not> lcsLen l r i (j - 1) < lcsLen l r (i - 1) j"
    by (simp add: lcsLength_take)
  then show ?case using left
    by (subst selectedLCS_unfold, subst lcsLen_Suc_Suc) simp_all
qed

lemma backtrack_selectedLCS:
  "i \<le> length l \<Longrightarrow> j \<le> length r \<Longrightarrow> dp = dpTable l r \<Longrightarrow>
     backtrack l r dp i j acc = map (matchOf l) (selectedLCS l r i j) @ acc"
proof (induction l r dp i j acc rule: backtrack.induct)
  case (1 l r dp i j acc)
  show ?case
  proof (cases "i > 0 \<and> j > 0")
    case False
    then show ?thesis by (subst backtrack.simps, subst selectedLCS_unfold) auto
  next
    case True
    have d: "dp ! (i - 1) ! j = lcsLength (take (i - 1) l) (take j r)"
            "dp ! i ! (j - 1) = lcsLength (take i l) (take (j - 1) r)"
      using "1.prems" by (simp_all add: lcsLength_take dpTable_lcsLen)
    show ?thesis
      using 1 True d
      by (subst backtrack.simps, subst selectedLCS_unfold) (auto simp: matchOf_def)
  qed
qed

lemma computeLCS_selectedLCS:
  "computeLCS l r = map (matchOf l) (selectedLCS l r (length l) (length r))"
  by (simp add: computeLCS_def backtrack_selectedLCS)

lemma lcsLength_lcsLen: "lcsLength l r = lcsLen l r (length l) (length r)"
  using lcsLength_take [of "length l" l "length r" r] by simp

text \<open>
  C3. For every pair of key sequences, the list \<open>computeLCS\<close> returns is strictly
  increasing in its left indices and in its right indices, pairs only positions with equal
  keys (and records the key), has the length of a longest common subsequence, and is the
  list the specified backtracking selects from \<open>(m, n)\<close>: diagonal on equal keys, else
  toward the larger neighbouring length, and on a tie the right index is decremented.
\<close>

theorem computeLCS_selected_lcs:
  "sorted_wrt (<) (map leftIndex (computeLCS l r)) \<and>
   sorted_wrt (<) (map rightIndex (computeLCS l r)) \<and>
   list_all (\<lambda>p. leftIndex p < length l \<and> rightIndex p < length r \<and>
                  l ! leftIndex p = r ! rightIndex p \<and> value' p = l ! leftIndex p)
     (computeLCS l r) \<and>
   length (computeLCS l r) = lcsLength l r \<and>
   map (\<lambda>p. (leftIndex p, rightIndex p)) (computeLCS l r) = selectedLCS l r (length l) (length r)"
proof -
  let ?sel = "selectedLCS l r (length l) (length r)"
  have c: "computeLCS l r = map (matchOf l) ?sel"
    by (rule computeLCS_selectedLCS)
  have li: "map leftIndex (map (matchOf l) ?sel) = map fst ?sel"
    and ri: "map rightIndex (map (matchOf l) ?sel) = map snd ?sel"
    and pairs: "map (\<lambda>p. (leftIndex p, rightIndex p)) (map (matchOf l) ?sel) = ?sel"
    by (simp_all add: matchOf_def comp_def)
  have s: "sorted_wrt (<) (map fst ?sel)" "sorted_wrt (<) (map snd ?sel)"
    using selectedLCS_sorted [of l r "length l" "length r"] by simp_all
  have b: "list_all (\<lambda>p. fst p < length l \<and> snd p < length r \<and> l ! fst p = r ! snd p) ?sel"
    by (rule selectedLCS_bounds)
  have b': "list_all (\<lambda>p. leftIndex p < length l \<and> rightIndex p < length r \<and>
                  l ! leftIndex p = r ! rightIndex p \<and> value' p = l ! leftIndex p)
     (map (matchOf l) ?sel)"
    using b by (simp add: list_all_iff matchOf_def)
  have len: "length (map (matchOf l) ?sel) = lcsLength l r"
    by (simp add: selectedLCS_length lcsLength_lcsLen)
  show ?thesis
    unfolding c li ri pairs using s b' len by simp
qed

section \<open>The main loop of computeLineDiff\<close>

lemma pushDeleted_eq:
  "pushDeleted lf lm b i res = (max i b, res @ map (deletedEntry lf lm) [i..<b])"
proof (induction lf lm b i res rule: pushDeleted.induct)
  case (1 lf lm b i res)
  show ?case
  proof (cases "i < b")
    case True
    then show ?thesis using 1 by (subst pushDeleted.simps) (simp add: upt_conv_Cons)
  next
    case False
    then show ?thesis by (subst pushDeleted.simps) simp
  qed
qed

lemma pushAdded_eq:
  "pushAdded rf rm b i res = (max i b, res @ map (addedEntry rf rm) [i..<b])"
proof (induction rf rm b i res rule: pushAdded.induct)
  case (1 rf rm b i res)
  show ?case
  proof (cases "i < b")
    case True
    then show ?thesis using 1 by (subst pushAdded.simps) (simp add: upt_conv_Cons)
  next
    case False
    then show ?thesis by (subst pushAdded.simps) simp
  qed
qed

lemma diffLoop_done:
  "length lf \<le> li \<Longrightarrow> length rf \<le> ri \<Longrightarrow> diffLoop lf lm rf rm lcs li ri k res = res"
  by (subst diffLoop.simps) simp

lemma diffLoop_walk:
  "k \<le> length lcs \<Longrightarrow> validMatches (length lf) (length rf) li ri (map indexPair (drop k lcs)) \<Longrightarrow>
     diffLoop lf lm rf rm lcs li ri k res = res @ walk lf lm rf rm (map indexPair (drop k lcs)) li ri"
proof (induction "length lcs - k" arbitrary: k li ri res)
  case 0
  then have k: "k = length lcs" by simp
  show ?case
  proof (cases "li < length lf \<or> ri < length rf")
    case True
    then show ?thesis
      using k by (subst diffLoop.simps) (simp add: pushDeleted_eq pushAdded_eq diffLoop_done)
  next
    case False
    then show ?thesis using k by (simp add: diffLoop_done)
  qed
next
  case (Suc d)
  then have k: "k < length lcs" by simp
  then have dr: "drop k lcs = lcs ! k # drop (Suc k) lcs" by (simp add: Cons_nth_drop_Suc)
  have v: "li \<le> leftIndex (lcs ! k)" "leftIndex (lcs ! k) < length lf"
          "ri \<le> rightIndex (lcs ! k)" "rightIndex (lcs ! k) < length rf"
          "validMatches (length lf) (length rf) (leftIndex (lcs ! k) + 1) (rightIndex (lcs ! k) + 1)
             (map indexPair (drop (Suc k) lcs))"
    using Suc.prems(2) unfolding dr by (simp_all add: indexPair_def)
  have ih: "diffLoop lf lm rf rm lcs (Suc (leftIndex (lcs ! k))) (Suc (rightIndex (lcs ! k))) (Suc k) res' =
      res' @ walk lf lm rf rm (map indexPair (drop (Suc k) lcs)) (Suc (leftIndex (lcs ! k))) (Suc (rightIndex (lcs ! k)))"
    for res'
    using Suc.hyps(2) k v(5) by (intro Suc.hyps(1)) simp_all
  show ?case
    using k v(1-4)
    by (subst diffLoop.simps) (simp add: pushDeleted_eq pushAdded_eq Let_def max_absorb2 ih dr indexPair_def)
qed

section \<open>The merge phase\<close>

lemma collectType_eq:
  "collectType t result i acc =
     (i + length (takeWhile (\<lambda>e. type e = t) (drop i result)),
      acc @ takeWhile (\<lambda>e. type e = t) (drop i result))"
proof (induction t result i acc rule: collectType.induct)
  case (1 t result i acc)
  show ?case
  proof (cases "i < length result")
    case True
    then have dr: "drop i result = result ! i # drop (Suc i) result"
      by (simp add: Cons_nth_drop_Suc)
    show ?thesis
      using True 1 by (subst collectType.simps) (simp add: dr)
  next
    case False
    then show ?thesis by (subst collectType.simps) simp
  qed
qed

lemma mergeRun_pairRuns:
  assumes "ds \<noteq> []"
  shows "mergeRun ds as = pairRuns ds as"
proof (cases "as = []")
  case True
  then show ?thesis by (simp add: mergeRun_def pairRuns_def)
next
  case False
  have "map (\<lambda>j. if j < length ds \<and> j < length as then modifiedEntry (ds ! j) (as ! j)
                  else if j < length ds then ds ! j else as ! j) [0..<max (length ds) (length as)]
        = pairRuns ds as"
  proof (rule nth_equalityI)
    show "length (map (\<lambda>j. if j < length ds \<and> j < length as then modifiedEntry (ds ! j) (as ! j)
                  else if j < length ds then ds ! j else as ! j) [0..<max (length ds) (length as)])
          = length (pairRuns ds as)"
      by (simp add: pairRuns_def)
  next
    fix j assume "j < length (map (\<lambda>j. if j < length ds \<and> j < length as then modifiedEntry (ds ! j) (as ! j)
                  else if j < length ds then ds ! j else as ! j) [0..<max (length ds) (length as)])"
    then have j: "j < max (length ds) (length as)" by simp
    show "map (\<lambda>j. if j < length ds \<and> j < length as then modifiedEntry (ds ! j) (as ! j)
                  else if j < length ds then ds ! j else as ! j) [0..<max (length ds) (length as)] ! j
          = pairRuns ds as ! j"
    proof (cases "j < length ds \<and> j < length as")
      case True
      then show ?thesis using j by (simp add: pairRuns_def nth_append)
    next
      case nb: False
      show ?thesis
      proof (cases "j < length ds")
        case True
        then have "length as \<le> j" using nb by simp
        then show ?thesis using j True by (simp add: pairRuns_def nth_append min_def)
      next
        case False
        then have "length ds \<le> j" "j < length as" using j by auto
        then show ?thesis using j by (simp add: pairRuns_def nth_append min_def)
      qed
    qed
  qed
  then show ?thesis using assms False by (simp add: mergeRun_def)
qed

lemma mergeLoop_done: "length result \<le> i \<Longrightarrow> mergeLoop result i merged = merged"
  by (subst mergeLoop.simps) simp

lemma mergeLoop_mergeRuns:
  "mergeLoop result i merged = merged @ mergeRuns (drop i result)"
proof (induction "length result - i" arbitrary: i merged rule: less_induct)
  case less
  show ?case
  proof (cases "i < length result")
    case False
    then show ?thesis by (simp add: mergeLoop_done)
  next
    case True
    then have dr: "drop i result = result ! i # drop (Suc i) result"
      by (simp add: Cons_nth_drop_Suc)
    show ?thesis
    proof (cases "type (result ! i) = Deleted")
      case False
      have "mergeLoop result (Suc i) (merged @ [result ! i]) =
              (merged @ [result ! i]) @ mergeRuns (drop (Suc i) result)"
        using True by (intro less) simp
      then show ?thesis
        using True False
        by (subst mergeLoop.simps) (simp add: dr mergeRuns.simps(2) isDeleted_def)
    next
      case del: True
      define ds where "ds = takeWhile isDeleted (drop i result)"
      define as where "as = takeWhile isAdded (dropWhile isDeleted (drop i result))"
      have ds: "takeWhile (\<lambda>e. type e = Deleted) (drop i result) = ds"
        by (simp add: ds_def isDeleted_def [abs_def])
      have d1: "drop (i + length ds) result = dropWhile isDeleted (drop i result)"
        by (simp add: ds_def dropWhile_eq_drop add.commute)
      have as: "takeWhile (\<lambda>e. type e = Added) (drop (i + length ds) result) = as"
        by (simp add: as_def d1 isAdded_def [abs_def])
      have "drop (i + length ds + length as) result = drop (length as) (drop (i + length ds) result)"
        by (simp add: add.commute)
      also have "\<dots> = drop (length as) (dropWhile isDeleted (drop i result))"
        by (simp only: d1)
      also have "\<dots> = dropWhile isAdded (dropWhile isDeleted (drop i result))"
        by (simp add: as_def dropWhile_eq_drop)
      finally have d2: "drop (i + length ds + length as) result =
                  dropWhile isAdded (dropWhile isDeleted (drop i result))" .
      have pos: "1 \<le> length ds"
        using del by (simp add: ds_def dr isDeleted_def)
      have ih: "mergeLoop result (i + length ds + length as) (merged @ mergeRun ds as) =
                  (merged @ mergeRun ds as) @ mergeRuns (drop (i + length ds + length as) result)"
        using True pos by (intro less) arith
      have "mergeLoop result i merged =
              mergeLoop result (i + length ds + length as) (merged @ mergeRun ds as)"
        using True del by (subst mergeLoop.simps) (simp add: collectType_eq ds as)
      also have "\<dots> = merged @ mergeRun ds as @ mergeRuns (dropWhile isAdded (dropWhile isDeleted (drop i result)))"
        using ih d2 by simp
      also have "\<dots> = merged @ mergeRuns (drop i result)"
      proof -
        have "mergeRuns (result ! i # drop (Suc i) result) =
                mergeRun ds as @ mergeRuns (dropWhile isAdded (dropWhile isDeleted (drop i result)))"
          using del by (subst mergeRuns.simps(2)) (simp add: ds_def as_def dr isDeleted_def)
        then show ?thesis by (simp add: dr)
      qed
      finally show ?thesis .
    qed
  qed
qed

lemma mergePhase_mergeRuns: "mergePhase result = mergeRuns result"
  by (simp add: mergePhase_def mergeLoop_mergeRuns)

lemma span_stop:
  "ys = [] \<or> \<not> P (hd ys) \<Longrightarrow> takeWhile P ys = [] \<and> dropWhile P ys = ys"
  by (cases ys) auto

lemma span_all:
  "list_all P xs \<Longrightarrow> ys = [] \<or> \<not> P (hd ys) \<Longrightarrow>
     takeWhile P (xs @ ys) = xs \<and> dropWhile P (xs @ ys) = ys"
  using span_stop [of ys P] by (induction xs) simp_all

lemma span_append:
  "(\<exists>x \<in> set xs. \<not> P x) \<or> ys = [] \<or> \<not> P (hd ys) \<Longrightarrow>
     takeWhile P (xs @ ys) = takeWhile P xs \<and> dropWhile P (xs @ ys) = dropWhile P xs @ ys"
  using span_stop [of ys P] by (induction xs) auto

lemma last_dropWhile: "dropWhile P xs \<noteq> [] \<Longrightarrow> last (dropWhile P xs) = last xs"
  by (induction xs) (auto split: if_splits)

lemma last_not_all: "xs \<noteq> [] \<Longrightarrow> \<not> P (last xs) \<Longrightarrow> \<exists>x \<in> set xs. \<not> P x"
  using last_in_set by blast

lemma mergeRuns_run:
  assumes "ds \<noteq> []" "list_all isDeleted ds" "list_all isAdded as"
    and "post = [] \<or> \<not> isAdded (hd post)"
    and "as = [] \<Longrightarrow> post = [] \<or> \<not> isDeleted (hd post)"
  shows "mergeRuns (ds @ as @ post) = pairRuns ds as @ mergeRuns post"
proof -
  obtain d ds' where ds: "ds = d # ds'" using assms(1) by (cases ds) auto
  have d: "isDeleted d" using assms(2) ds by simp
  have nd: "as @ post = [] \<or> \<not> isDeleted (hd (as @ post))"
  proof (cases as)
    case Nil
    then show ?thesis using assms(5) by simp
  next
    case (Cons a as')
    then have "isAdded a" using assms(3) by simp
    then show ?thesis using Cons by (simp add: isAdded_def isDeleted_def)
  qed
  have s1: "takeWhile isDeleted (ds @ as @ post) = ds" "dropWhile isDeleted (ds @ as @ post) = as @ post"
    using span_all [OF assms(2) nd] by simp_all
  have s2: "takeWhile isAdded (as @ post) = as" "dropWhile isAdded (as @ post) = post"
    using span_all [OF assms(3) assms(4)] by simp_all
  have "mergeRuns (d # (ds' @ as @ post)) =
          mergeRun (takeWhile isDeleted (d # (ds' @ as @ post)))
            (takeWhile isAdded (dropWhile isDeleted (d # (ds' @ as @ post))))
          @ mergeRuns (dropWhile isAdded (dropWhile isDeleted (d # (ds' @ as @ post))))"
    using d by (subst mergeRuns.simps(2)) simp
  then have "mergeRuns (ds @ as @ post) = mergeRun ds as @ mergeRuns post"
    using s1 s2 by (simp add: ds)
  then show ?thesis using assms(1) by (simp add: mergeRun_pairRuns)
qed

lemma mergeRuns_append:
  "pre = [] \<or> rest = [] \<or>
     (\<not> isDeleted (last pre) \<and> (\<not> isAdded (last pre) \<or> \<not> isAdded (hd rest))) \<Longrightarrow>
   mergeRuns (pre @ rest) = mergeRuns pre @ mergeRuns rest"
proof (induction pre rule: mergeRuns.induct)
  case 1
  then show ?case by simp
next
  case (2 e es)
  show ?case
  proof (cases "rest = []")
    case True
    then show ?thesis by simp
  next
    case rest: False
    then have b: "\<not> isDeleted (last (e # es))"
                 "\<not> isAdded (last (e # es)) \<or> \<not> isAdded (hd rest)"
      using "2.prems" by auto
    show ?thesis
    proof (cases "isDeleted e")
      case False
      have "es = [] \<or> rest = [] \<or>
            (\<not> isDeleted (last es) \<and> (\<not> isAdded (last es) \<or> \<not> isAdded (hd rest)))"
        using b by (cases "es = []") auto
      then have "mergeRuns (es @ rest) = mergeRuns es @ mergeRuns rest"
        using "2.IH"(2) False by simp
      moreover have "mergeRuns (e # (es @ rest)) = e # mergeRuns (es @ rest)"
        using False by (subst mergeRuns.simps(2)) simp
      moreover have "mergeRuns (e # es) = e # mergeRuns es"
        using False by (subst mergeRuns.simps(2)) simp
      ultimately show ?thesis by simp
    next
      case True
      define xs where "xs = e # es"
      define ys where "ys = dropWhile isDeleted xs"
      define zs where "zs = dropWhile isAdded ys"
      have "\<exists>x \<in> set xs. \<not> isDeleted x"
        using b(1) last_not_all [of xs isDeleted] by (simp add: xs_def)
      then have s1: "takeWhile isDeleted (xs @ rest) = takeWhile isDeleted xs"
                    "dropWhile isDeleted (xs @ rest) = ys @ rest"
        using span_append [of xs isDeleted rest] by (simp_all add: ys_def)
      have ys: "ys \<noteq> []" "last ys = last xs"
      proof -
        show "ys \<noteq> []"
          using \<open>\<exists>x \<in> set xs. \<not> isDeleted x\<close> by (auto simp: ys_def)
        then show "last ys = last xs" unfolding ys_def by (rule last_dropWhile)
      qed
      have "(\<exists>x \<in> set ys. \<not> isAdded x) \<or> rest = [] \<or> \<not> isAdded (hd rest)"
        using b(2) ys last_not_all [of ys isAdded] by (auto simp: xs_def)
      then have s2: "takeWhile isAdded (ys @ rest) = takeWhile isAdded ys"
                    "dropWhile isAdded (ys @ rest) = zs @ rest"
        using span_append [of ys isAdded rest] by (simp_all add: zs_def)
      have "zs = [] \<or> rest = [] \<or>
            (\<not> isDeleted (last zs) \<and> (\<not> isAdded (last zs) \<or> \<not> isAdded (hd rest)))"
      proof (cases "zs = []")
        case True
        then show ?thesis by simp
      next
        case False
        then have "last zs = last xs" using ys(2) last_dropWhile [of isAdded ys] by (simp add: zs_def)
        then show ?thesis using b by (simp add: xs_def)
      qed
      then have ih: "mergeRuns (zs @ rest) = mergeRuns zs @ mergeRuns rest"
        using "2.IH"(1) True by (simp add: zs_def ys_def xs_def)
      have "mergeRuns (e # (es @ rest)) =
              mergeRun (takeWhile isDeleted (xs @ rest)) (takeWhile isAdded (dropWhile isDeleted (xs @ rest)))
              @ mergeRuns (dropWhile isAdded (dropWhile isDeleted (xs @ rest)))"
        using True by (subst mergeRuns.simps(2)) (simp add: xs_def)
      then have l: "mergeRuns (e # (es @ rest)) =
          (mergeRun (takeWhile isDeleted xs) (takeWhile isAdded ys) @ mergeRuns zs) @ mergeRuns rest"
        by (simp add: s1 s2 ih)
      have r: "mergeRuns (e # es) = mergeRun (takeWhile isDeleted xs) (takeWhile isAdded ys) @ mergeRuns zs"
        using True by (subst mergeRuns.simps(2)) (simp add: xs_def ys_def zs_def)
      show ?thesis using l unfolding r [symmetric] by simp
    qed
  qed
qed

lemma mergeRuns_added:
  "list_all isAdded as \<Longrightarrow> mergeRuns (as @ post) = as @ mergeRuns post"
proof (induction as)
  case Nil
  then show ?case by simp
next
  case (Cons a as)
  then have "\<not> isDeleted a" by (simp add: isAdded_def isDeleted_def)
  then have "mergeRuns (a # (as @ post)) = a # mergeRuns (as @ post)"
    by (subst mergeRuns.simps(2)) simp
  then show ?case using Cons by simp
qed

text \<open>
  C4. A maximal run \<open>ds\<close> of deleted entries followed by the maximal run \<open>adds\<close> of added
  entries is replaced by one modified entry per position below the shorter length (left
  fields of the delete, right fields of the add), then the excess deletes, then the excess
  adds, in order; with no adds the deletes pass through. A run of added entries that no
  delete run precedes passes through unchanged. What comes before and after is merged on
  its own.
\<close>

theorem mergePhase_runs:
  "(ds \<noteq> [] \<and> list_all (\<lambda>e. type e = Deleted) ds \<and> list_all (\<lambda>e. type e = Added) adds \<and>
    (pre = [] \<or> type (last pre) \<noteq> Deleted) \<and>
    (post = [] \<or> type (hd post) \<noteq> Added) \<and>
    (adds = [] \<longrightarrow> post = [] \<or> type (hd post) \<noteq> Deleted)
    \<longrightarrow> mergePhase (pre @ ds @ adds @ post) =
          mergePhase pre @
          map (\<lambda>(d, a). \<lparr>type = Modified, leftLine = leftLine d, leftLineNum = leftLineNum d,
                           rightLine = rightLine a, rightLineNum = rightLineNum a\<rparr>) (zip ds adds) @
          drop (length adds) ds @ drop (length ds) adds @
          mergePhase post) \<and>
   (list_all (\<lambda>e. type e = Added) adds \<and>
    (pre = [] \<or> (type (last pre) \<noteq> Deleted \<and> type (last pre) \<noteq> Added))
    \<longrightarrow> mergePhase (pre @ adds @ post) = mergePhase pre @ adds @ mergePhase post)"
proof (intro conjI impI)
  assume h: "ds \<noteq> [] \<and> list_all (\<lambda>e. type e = Deleted) ds \<and> list_all (\<lambda>e. type e = Added) adds \<and>
    (pre = [] \<or> type (last pre) \<noteq> Deleted) \<and>
    (post = [] \<or> type (hd post) \<noteq> Added) \<and>
    (adds = [] \<longrightarrow> post = [] \<or> type (hd post) \<noteq> Deleted)"
  then have ds: "ds \<noteq> []" "list_all isDeleted ds" "list_all isAdded adds"
    by (simp_all add: isDeleted_def [abs_def] isAdded_def [abs_def])
  have "isDeleted (hd (ds @ adds @ post))"
    using ds(1,2) by (cases ds) simp_all
  then have "pre = [] \<or> ds @ adds @ post = [] \<or>
     (\<not> isDeleted (last pre) \<and> (\<not> isAdded (last pre) \<or> \<not> isAdded (hd (ds @ adds @ post))))"
    using h by (auto simp: isDeleted_def isAdded_def)
  then have "mergeRuns (pre @ ds @ adds @ post) = mergeRuns pre @ mergeRuns (ds @ adds @ post)"
    by (rule mergeRuns_append)
  also have "mergeRuns (ds @ adds @ post) = pairRuns ds adds @ mergeRuns post"
    using ds h by (intro mergeRuns_run) (auto simp: isDeleted_def isAdded_def)
  finally show "mergePhase (pre @ ds @ adds @ post) =
          mergePhase pre @
          map (\<lambda>(d, a). \<lparr>type = Modified, leftLine = leftLine d, leftLineNum = leftLineNum d,
                           rightLine = rightLine a, rightLineNum = rightLineNum a\<rparr>) (zip ds adds) @
          drop (length adds) ds @ drop (length ds) adds @
          mergePhase post"
    by (simp add: mergePhase_mergeRuns pairRuns_def modifiedEntry_def [abs_def])
next
  assume h: "list_all (\<lambda>e. type e = Added) adds \<and>
    (pre = [] \<or> (type (last pre) \<noteq> Deleted \<and> type (last pre) \<noteq> Added))"
  then have "pre = [] \<or> adds @ post = [] \<or>
     (\<not> isDeleted (last pre) \<and> (\<not> isAdded (last pre) \<or> \<not> isAdded (hd (adds @ post))))"
    by (auto simp: isDeleted_def isAdded_def)
  then have "mergeRuns (pre @ adds @ post) = mergeRuns pre @ mergeRuns (adds @ post)"
    by (rule mergeRuns_append)
  also have "mergeRuns (adds @ post) = adds @ mergeRuns post"
    using h by (intro mergeRuns_added) (simp add: isAdded_def [abs_def])
  finally show "mergePhase (pre @ adds @ post) = mergePhase pre @ adds @ mergePhase post"
    by (simp add: mergePhase_mergeRuns)
qed

text \<open>The two cases on a diff of four, respectively three, entries.\<close>

theorem mergePhase_runs_witness:
  "mergePhase
     ([\<lparr>type = Unchanged, leftLine = Str (js ''a''), leftLineNum = Num 1,
        rightLine = Str (js ''a''), rightLineNum = Num 1\<rparr>] @
      [\<lparr>type = Deleted, leftLine = Str (js ''b''), leftLineNum = Num 2,
        rightLine = Null, rightLineNum = NullNum\<rparr>,
       \<lparr>type = Deleted, leftLine = Str (js ''c''), leftLineNum = Num 3,
        rightLine = Null, rightLineNum = NullNum\<rparr>] @
      [\<lparr>type = Added, leftLine = Null, leftLineNum = NullNum,
        rightLine = Str (js ''x''), rightLineNum = Num 2\<rparr>] @
      [\<lparr>type = Unchanged, leftLine = Str (js ''d''), leftLineNum = Num 4,
        rightLine = Str (js ''d''), rightLineNum = Num 3\<rparr>]) =
     [\<lparr>type = Unchanged, leftLine = Str (js ''a''), leftLineNum = Num 1,
        rightLine = Str (js ''a''), rightLineNum = Num 1\<rparr>,
      \<lparr>type = Modified, leftLine = Str (js ''b''), leftLineNum = Num 2,
        rightLine = Str (js ''x''), rightLineNum = Num 2\<rparr>,
      \<lparr>type = Deleted, leftLine = Str (js ''c''), leftLineNum = Num 3,
        rightLine = Null, rightLineNum = NullNum\<rparr>,
      \<lparr>type = Unchanged, leftLine = Str (js ''d''), leftLineNum = Num 4,
        rightLine = Str (js ''d''), rightLineNum = Num 3\<rparr>] \<and>
   mergePhase
     ([\<lparr>type = Unchanged, leftLine = Str (js ''a''), leftLineNum = Num 1,
        rightLine = Str (js ''a''), rightLineNum = Num 1\<rparr>] @
      [\<lparr>type = Added, leftLine = Null, leftLineNum = NullNum,
        rightLine = Str (js ''x''), rightLineNum = Num 2\<rparr>] @
      [\<lparr>type = Unchanged, leftLine = Str (js ''d''), leftLineNum = Num 4,
        rightLine = Str (js ''d''), rightLineNum = Num 3\<rparr>]) =
     [\<lparr>type = Unchanged, leftLine = Str (js ''a''), leftLineNum = Num 1,
        rightLine = Str (js ''a''), rightLineNum = Num 1\<rparr>,
      \<lparr>type = Added, leftLine = Null, leftLineNum = NullNum,
        rightLine = Str (js ''x''), rightLineNum = Num 2\<rparr>,
      \<lparr>type = Unchanged, leftLine = Str (js ''d''), leftLineNum = Num 4,
        rightLine = Str (js ''d''), rightLineNum = Num 3\<rparr>]"
proof -
  define u where "u = \<lparr>type = Unchanged, leftLine = Str (js ''a''), leftLineNum = Num 1,
        rightLine = Str (js ''a''), rightLineNum = Num 1\<rparr>"
  define v where "v = \<lparr>type = Unchanged, leftLine = Str (js ''d''), leftLineNum = Num 4,
        rightLine = Str (js ''d''), rightLineNum = Num 3\<rparr>"
  have u: "mergePhase [u] = [u]" and v: "mergePhase [v] = [v]"
    unfolding u_def v_def by code_simp+
  show ?thesis
    using mergePhase_runs
      [where pre = "[u]" and post = "[v]"
         and ds = "[\<lparr>type = Deleted, leftLine = Str (js ''b''), leftLineNum = Num 2,
                      rightLine = Null, rightLineNum = NullNum\<rparr>,
                    \<lparr>type = Deleted, leftLine = Str (js ''c''), leftLineNum = Num 3,
                      rightLine = Null, rightLineNum = NullNum\<rparr>]"
         and adds = "[\<lparr>type = Added, leftLine = Null, leftLineNum = NullNum,
                       rightLine = Str (js ''x''), rightLineNum = Num 2\<rparr>]"]
    unfolding u v by (simp add: u_def v_def)
qed

section \<open>The two sides of the computed diff\<close>

lemma leftSide_append [simp]: "leftSide (xs @ ys) = leftSide xs @ leftSide ys"
  by (simp add: leftSide_def)

lemma rightSide_append [simp]: "rightSide (xs @ ys) = rightSide xs @ rightSide ys"
  by (simp add: rightSide_def)

lemma leftSide_Nil [simp]: "leftSide [] = []"
  by (simp add: leftSide_def)

lemma rightSide_Nil [simp]: "rightSide [] = []"
  by (simp add: rightSide_def)

lemma leftSide_Cons [simp]:
  "leftSide (e # es) =
     (if leftLineNum e \<noteq> NullNum then (leftLine e, leftLineNum e) # leftSide es else leftSide es)"
  by (simp add: leftSide_def)

lemma rightSide_Cons [simp]:
  "rightSide (e # es) =
     (if rightLineNum e \<noteq> NullNum then (rightLine e, rightLineNum e) # rightSide es else rightSide es)"
  by (simp add: rightSide_def)

lemma leftSide_none: "list_all (\<lambda>e. leftLineNum e = NullNum) es \<Longrightarrow> leftSide es = []"
  by (induction es) simp_all

lemma rightSide_none: "list_all (\<lambda>e. rightLineNum e = NullNum) es \<Longrightarrow> rightSide es = []"
  by (induction es) simp_all

lemma leftSide_zip:
  "leftSide (map (\<lambda>(d, a). modifiedEntry d a) (zip ds as)) = leftSide (take (length as) ds)"
proof (induction ds arbitrary: as)
  case Nil
  then show ?case by simp
next
  case (Cons d ds)
  then show ?case by (cases as) (simp_all add: modifiedEntry_def)
qed

lemma rightSide_zip:
  "rightSide (map (\<lambda>(d, a). modifiedEntry d a) (zip ds as)) = rightSide (take (length ds) as)"
proof (induction ds arbitrary: as)
  case Nil
  then show ?case by simp
next
  case (Cons d ds)
  then show ?case by (cases as) (simp_all add: modifiedEntry_def)
qed

lemma sides_pairRuns:
  assumes "list_all (\<lambda>e. rightLineNum e = NullNum) ds" "list_all (\<lambda>e. leftLineNum e = NullNum) as"
  shows "leftSide (pairRuns ds as) = leftSide ds" "rightSide (pairRuns ds as) = rightSide as"
proof -
  have l0: "leftSide (drop (length ds) as) = []"
    using assms(2) by (intro leftSide_none) (auto simp: list_all_iff dest: in_set_dropD)
  have r0: "rightSide (drop (length as) ds) = []"
    using assms(1) by (intro rightSide_none) (auto simp: list_all_iff dest: in_set_dropD)
  have "leftSide (pairRuns ds as) = leftSide (take (length as) ds) @ leftSide (drop (length as) ds)"
    by (simp add: pairRuns_def leftSide_zip l0)
  also have "\<dots> = leftSide (take (length as) ds @ drop (length as) ds)"
    by (simp only: leftSide_append)
  finally show "leftSide (pairRuns ds as) = leftSide ds"
    by (simp only: append_take_drop_id)
  have "rightSide (pairRuns ds as) = rightSide (take (length ds) as) @ rightSide (drop (length ds) as)"
    by (simp add: pairRuns_def rightSide_zip r0)
  also have "\<dots> = rightSide (take (length ds) as @ drop (length ds) as)"
    by (simp only: rightSide_append)
  finally show "rightSide (pairRuns ds as) = rightSide as"
    by (simp only: append_take_drop_id)
qed

lemma sides_mergeRuns:
  "list_all oneSided es \<Longrightarrow>
     leftSide (mergeRuns es) = leftSide es \<and> rightSide (mergeRuns es) = rightSide es"
proof (induction es rule: mergeRuns.induct)
  case 1
  then show ?case by simp
next
  case (2 e es)
  show ?case
  proof (cases "isDeleted e")
    case False
    then have "mergeRuns (e # es) = e # mergeRuns es"
      by (subst mergeRuns.simps(2)) simp
    then show ?thesis
      using 2 False by simp
  next
    case True
    define xs where "xs = e # es"
    define ds where "ds = takeWhile isDeleted xs"
    define as where "as = takeWhile isAdded (dropWhile isDeleted xs)"
    define rest where "rest = dropWhile isAdded (dropWhile isDeleted xs)"
    have xs: "xs = ds @ as @ rest"
      by (simp add: ds_def as_def rest_def)
    have ne: "ds \<noteq> []" using True by (simp add: ds_def xs_def)
    have all: "list_all oneSided ds" "list_all oneSided as" "list_all oneSided rest"
      using "2.prems" xs by (simp_all add: xs_def [symmetric])
    have dsd: "list_all isDeleted ds"
      by (auto simp: ds_def list_all_iff dest: set_takeWhileD)
    have asa: "list_all isAdded as"
      by (auto simp: as_def list_all_iff dest: set_takeWhileD)
    have d0: "list_all (\<lambda>e. rightLineNum e = NullNum) ds"
      using all(1) dsd by (auto simp: list_all_iff oneSided_def isDeleted_def)
    have a0: "list_all (\<lambda>e. leftLineNum e = NullNum) as"
      using all(2) asa by (auto simp: list_all_iff oneSided_def isAdded_def isDeleted_def split: if_splits)
    have m: "mergeRuns (e # es) = pairRuns ds as @ mergeRuns rest"
      using True ne by (subst mergeRuns.simps(2)) (simp add: ds_def as_def rest_def xs_def mergeRun_pairRuns)
    have ih: "leftSide (mergeRuns rest) = leftSide rest \<and> rightSide (mergeRuns rest) = rightSide rest"
      using "2.IH"(1) True all(3) by (simp add: rest_def xs_def)
    have "leftSide xs = leftSide ds @ leftSide rest" "rightSide xs = rightSide as @ rightSide rest"
      using leftSide_none [OF a0] rightSide_none [OF d0] by (simp_all add: xs)
    then show ?thesis
      using m ih sides_pairRuns [OF d0 a0] by (simp add: xs_def)
  qed
qed

lemma lineNumAt_not_null [simp]: "lineNumAt m i \<noteq> NullNum"
  by (simp add: lineNumAt_def)

lemma leftSide_deleted:
  "leftSide (map (deletedEntry lf lm) is) = map (\<lambda>i. (lineAt lf i, lineNumAt lm i)) is"
  by (induction "is") (simp_all add: deletedEntry_def)

lemma rightSide_deleted: "rightSide (map (deletedEntry lf lm) is) = []"
  by (induction "is") (simp_all add: deletedEntry_def)

lemma leftSide_added: "leftSide (map (addedEntry rf rm) is) = []"
  by (induction "is") (simp_all add: addedEntry_def)

lemma rightSide_added:
  "rightSide (map (addedEntry rf rm) is) = map (\<lambda>i. (lineAt rf i, lineNumAt rm i)) is"
  by (induction "is") (simp_all add: addedEntry_def)

lemma upt_split3: "a \<le> b \<Longrightarrow> b < c \<Longrightarrow> [a..<c] = [a..<b] @ b # [Suc b..<c]"
  by (metis le_add_diff_inverse less_imp_le_nat upt_add_eq_append upt_conv_Cons)

lemma walk_sides:
  "validMatches (length lf) (length rf) li ri ps \<Longrightarrow>
     leftSide (walk lf lm rf rm ps li ri) = map (\<lambda>i. (lineAt lf i, lineNumAt lm i)) [li..<length lf] \<and>
     rightSide (walk lf lm rf rm ps li ri) = map (\<lambda>i. (lineAt rf i, lineNumAt rm i)) [ri..<length rf]"
proof (induction ps arbitrary: li ri)
  case Nil
  then show ?case
    by (simp add: leftSide_deleted rightSide_deleted leftSide_added rightSide_added)
next
  case (Cons p ps)
  then have v: "li \<le> fst p" "fst p < length lf" "ri \<le> snd p" "snd p < length rf"
    and ih: "leftSide (walk lf lm rf rm ps (Suc (fst p)) (Suc (snd p))) =
               map (\<lambda>i. (lineAt lf i, lineNumAt lm i)) [Suc (fst p)..<length lf]"
            "rightSide (walk lf lm rf rm ps (Suc (fst p)) (Suc (snd p))) =
               map (\<lambda>i. (lineAt rf i, lineNumAt rm i)) [Suc (snd p)..<length rf]"
    by simp_all
  show ?case
    using ih
    by (simp add: leftSide_deleted rightSide_deleted leftSide_added rightSide_added
          unchangedEntry_def upt_split3 [OF v(1,2)] upt_split3 [OF v(3,4)])
qed

lemma oneSided_entries [simp]:
  "oneSided (deletedEntry lf lm i)" "oneSided (addedEntry rf rm j)"
  "oneSided (unchangedEntry lf lm rf rm i j)"
  by (simp_all add: oneSided_def deletedEntry_def addedEntry_def unchangedEntry_def)

lemma walk_oneSided: "list_all oneSided (walk lf lm rf rm ps li ri)"
  by (induction ps arbitrary: li ri) (auto simp: list_all_iff)

lemma validMatches_sorted:
  "sorted_wrt (<) (map fst ps) \<Longrightarrow> sorted_wrt (<) (map snd ps) \<Longrightarrow>
   list_all (\<lambda>p. fst p < m \<and> snd p < n) ps \<Longrightarrow> list_all (\<lambda>p. li \<le> fst p \<and> ri \<le> snd p) ps \<Longrightarrow>
   validMatches m n li ri ps"
proof (induction ps arbitrary: li ri)
  case Nil
  then show ?case by simp
next
  case (Cons p ps)
  have "list_all (\<lambda>q. Suc (fst p) \<le> fst q \<and> Suc (snd p) \<le> snd q) ps"
    using Cons.prems(1,2) by (auto simp: list_all_iff Suc_le_eq)
  then have "validMatches m n (Suc (fst p)) (Suc (snd p)) ps"
    using Cons.prems by (intro Cons.IH) simp_all
  then show ?case using Cons.prems by simp
qed

lemma validMatches_selectedLCS:
  "validMatches (length l) (length r) 0 0 (selectedLCS l r (length l) (length r))"
proof -
  have "list_all (\<lambda>p. fst p < length l \<and> snd p < length r) (selectedLCS l r (length l) (length r))"
    using selectedLCS_bounds [of "length l" "length r" l r] by (auto simp: list_all_iff)
  then show ?thesis
    using selectedLCS_sorted [of l r "length l" "length r"]
    by (intro validMatches_sorted) (simp_all add: list_all_iff)
qed

lemma indexPair_matchOf [simp]: "indexPair \<circ> matchOf l = id"
  by (rule ext) (simp add: indexPair_def matchOf_def)

lemma diffLoop_computeLCS:
  assumes "length lp = length lf" "length rp = length rf"
  shows "diffLoop lf lm rf rm (computeLCS lp rp) 0 0 0 [] =
           walk lf lm rf rm (selectedLCS lp rp (length lp) (length rp)) 0 0"
proof -
  have "validMatches (length lf) (length rf) 0 0 (map indexPair (drop 0 (computeLCS lp rp)))"
    using validMatches_selectedLCS [of lp rp] assms by (simp add: computeLCS_selectedLCS)
  then have "diffLoop lf lm rf rm (computeLCS lp rp) 0 0 0 [] =
      [] @ walk lf lm rf rm (map indexPair (drop 0 (computeLCS lp rp))) 0 0"
    by (intro diffLoop_walk) simp_all
  then show ?thesis by (simp add: computeLCS_selectedLCS)
qed

lemma rawDiff_walk:
  "rawDiff toLowerCase leftLines rightLines opts =
     walk (fst (sourceLines opts leftLines)) (snd (sourceLines opts leftLines))
          (fst (sourceLines opts rightLines)) (snd (sourceLines opts rightLines))
          (selectedLCS (map (processLine toLowerCase opts) (fst (sourceLines opts leftLines)))
                       (map (processLine toLowerCase opts) (fst (sourceLines opts rightLines)))
                       (length (fst (sourceLines opts leftLines)))
                       (length (fst (sourceLines opts rightLines)))) 0 0"
  using diffLoop_computeLCS
    [of "map (processLine toLowerCase opts) (fst (sourceLines opts leftLines))" "fst (sourceLines opts leftLines)"
        "map (processLine toLowerCase opts) (fst (sourceLines opts rightLines))" "fst (sourceLines opts rightLines)"
        "snd (sourceLines opts leftLines)" "snd (sourceLines opts rightLines)"]
  by (simp add: rawDiff_def sourceLines_def Let_def split_beta)

lemma dropWhile_Nil_iff: "dropWhile P xs = [] \<longleftrightarrow> list_all P xs"
  by (induction xs) auto

lemma trim_empty_iff: "trim s = [] \<longleftrightarrow> list_all isWhiteSpace s"
proof
  assume "list_all isWhiteSpace s"
  then have d: "dropWhile isWhiteSpace s = []" by (simp only: dropWhile_Nil_iff)
  show "trim s = []" unfolding trim_def d by simp
next
  assume t: "trim s = []"
  show "list_all isWhiteSpace s"
  proof (rule ccontr)
    assume "\<not> list_all isWhiteSpace s"
    then have ne: "dropWhile isWhiteSpace s \<noteq> []" by (simp only: dropWhile_Nil_iff not_False_eq_True)
    then have "\<not> isWhiteSpace (hd (dropWhile isWhiteSpace s))" by (rule hd_dropWhile)
    moreover have "hd (dropWhile isWhiteSpace s) \<in> set (rev (dropWhile isWhiteSpace s))"
      using ne by simp
    ultimately have "\<not> list_all isWhiteSpace (rev (dropWhile isWhiteSpace s))"
      by (auto simp: list_all_iff)
    then have "dropWhile isWhiteSpace (rev (dropWhile isWhiteSpace s)) \<noteq> []"
      by (simp only: dropWhile_Nil_iff not_False_eq_True)
    then have "rev (dropWhile isWhiteSpace (rev (dropWhile isWhiteSpace s))) \<noteq> []"
      by (simp only: rev_is_Nil_conv not_False_eq_True)
    then show False using t unfolding trim_def by (rule notE)
  qed
qed

lemma fold_filterStep:
  "fold filterStep ps (f, m) =
     (f @ map fst (filter (\<lambda>p. trim (fst p) \<noteq> []) ps), m @ map snd (filter (\<lambda>p. trim (fst p) \<noteq> []) ps))"
  by (induction ps arbitrary: f m) (auto simp: filterStep_def)

lemma zip_upt_map: "zip xs [0..<length xs] = map (\<lambda>i. (xs ! i, i)) [0..<length xs]"
  by (rule nth_equalityI) simp_all

lemma filterBlank_eq:
  "filterBlank lines =
     (map ((!) lines) (filter (\<lambda>i. \<not> list_all isWhiteSpace (lines ! i)) [0..<length lines]),
      filter (\<lambda>i. \<not> list_all isWhiteSpace (lines ! i)) [0..<length lines])"
  by (simp add: filterBlank_def fold_filterStep zip_upt_map filter_map comp_def trim_empty_iff)

lemma sourceLines_eq:
  "sourceLines opts lines = (map ((!) lines) (keptIndices opts lines), keptIndices opts lines)"
  by (simp add: sourceLines_def keptIndices_def filterBlank_eq map_nth)

lemma sides_source:
  "map (\<lambda>i. (lineAt (map ((!) lines) ks) i, lineNumAt ks i)) [0..<length ks] =
     map (\<lambda>i. (Str (lines ! i), Num (Suc i))) ks"
  by (rule nth_equalityI) (simp_all add: lineAt_def lineNumAt_def)

lemma computeLineDiff_sides:
  "leftSide (computeLineDiff toLowerCase leftLines rightLines opts) =
     map (\<lambda>i. (Str (leftLines ! i), Num (Suc i))) (keptIndices opts leftLines)"
  "rightSide (computeLineDiff toLowerCase leftLines rightLines opts) =
     map (\<lambda>i. (Str (rightLines ! i), Num (Suc i))) (keptIndices opts rightLines)"
proof -
  let ?lf = "map ((!) leftLines) (keptIndices opts leftLines)"
  let ?rf = "map ((!) rightLines) (keptIndices opts rightLines)"
  let ?ps = "selectedLCS (map (processLine toLowerCase opts) ?lf) (map (processLine toLowerCase opts) ?rf)
               (length ?lf) (length ?rf)"
  let ?w = "walk ?lf (keptIndices opts leftLines) ?rf (keptIndices opts rightLines) ?ps 0 0"
  have raw: "rawDiff toLowerCase leftLines rightLines opts = ?w"
    by (simp add: rawDiff_walk sourceLines_eq)
  have "validMatches (length ?lf) (length ?rf) 0 0 ?ps"
    using validMatches_selectedLCS
      [of "map (processLine toLowerCase opts) ?lf" "map (processLine toLowerCase opts) ?rf"]
    by simp
  then have w: "leftSide ?w = map (\<lambda>i. (lineAt ?lf i, lineNumAt (keptIndices opts leftLines) i)) [0..<length ?lf]"
               "rightSide ?w = map (\<lambda>i. (lineAt ?rf i, lineNumAt (keptIndices opts rightLines) i)) [0..<length ?rf]"
    using walk_sides [of ?lf ?rf 0 0 ?ps "keptIndices opts leftLines" "keptIndices opts rightLines"]
    by simp_all
  have m: "leftSide (mergeRuns ?w) = leftSide ?w" "rightSide (mergeRuns ?w) = rightSide ?w"
    using sides_mergeRuns [OF walk_oneSided, of ?lf "keptIndices opts leftLines" ?rf "keptIndices opts rightLines" ?ps 0 0]
    by simp_all
  have "leftSide (computeLineDiff toLowerCase leftLines rightLines opts) = leftSide (mergeRuns ?w)"
    by (simp only: computeLineDiff_def mergePhase_mergeRuns raw)
  also have "\<dots> = leftSide ?w" by (rule m(1))
  also have "\<dots> = map (\<lambda>i. (lineAt ?lf i, lineNumAt (keptIndices opts leftLines) i)) [0..<length ?lf]"
    by (rule w(1))
  also have "\<dots> = map (\<lambda>i. (Str (leftLines ! i), Num (Suc i))) (keptIndices opts leftLines)"
    using sides_source [of leftLines "keptIndices opts leftLines"] by simp
  finally show "leftSide (computeLineDiff toLowerCase leftLines rightLines opts) =
     map (\<lambda>i. (Str (leftLines ! i), Num (Suc i))) (keptIndices opts leftLines)" .
  have "rightSide (computeLineDiff toLowerCase leftLines rightLines opts) = rightSide (mergeRuns ?w)"
    by (simp only: computeLineDiff_def mergePhase_mergeRuns raw)
  also have "\<dots> = rightSide ?w" by (rule m(2))
  also have "\<dots> = map (\<lambda>i. (lineAt ?rf i, lineNumAt (keptIndices opts rightLines) i)) [0..<length ?rf]"
    by (rule w(2))
  also have "\<dots> = map (\<lambda>i. (Str (rightLines ! i), Num (Suc i))) (keptIndices opts rightLines)"
    using sides_source [of rightLines "keptIndices opts rightLines"] by simp
  finally show "rightSide (computeLineDiff toLowerCase leftLines rightLines opts) =
     map (\<lambda>i. (Str (rightLines ! i), Num (Suc i))) (keptIndices opts rightLines)" .
qed

lemma count_by_side_left:
  "x \<noteq> NullNum \<Longrightarrow>
     length (filter (\<lambda>e. leftLineNum e = x) es) = length (filter (\<lambda>p. snd p = x) (leftSide es))"
  by (induction es) auto

lemma count_by_side_right:
  "x \<noteq> NullNum \<Longrightarrow>
     length (filter (\<lambda>e. rightLineNum e = x) es) = length (filter (\<lambda>p. snd p = x) (rightSide es))"
  by (induction es) auto

lemma count_distinct:
  "distinct ks \<Longrightarrow> length (filter (\<lambda>k. k = i) ks) = (if i \<in> set ks then 1 else 0)"
  by (induction ks) auto

lemma distinct_keptIndices: "distinct (keptIndices opts lines)"
  by (simp add: keptIndices_def)

lemma set_keptIndices:
  "i \<in> set (keptIndices opts lines) \<longleftrightarrow>
     i < length lines \<and> (if ignoreBlankLines opts then \<not> list_all isWhiteSpace (lines ! i) else True)"
  by (auto simp: keptIndices_def)

lemma count_line_number:
  "length (filter (\<lambda>p. snd p = Num (Suc i)) (map (\<lambda>k. (Str (lines ! k), Num (Suc k))) ks)) =
     length (filter (\<lambda>k. k = i) ks)"
  by (induction ks) auto

text \<open>
  C1. For all inputs and every options setting, in the output of \<open>computeLineDiff\<close> the line
  number \<open>i + 1\<close> is the \<open>leftLineNum\<close> of exactly one entry when \<open>i\<close> is the index of a
  left line that takes part in the comparison (every line, or with \<open>ignoreBlankLines\<close> the
  lines that are not empty and not all white space), and of no entry otherwise; and the same
  on the right.
\<close>

theorem computeLineDiff_partition:
  "length (filter (\<lambda>e. leftLineNum e = Num (Suc i))
             (computeLineDiff toLowerCase leftLines rightLines opts)) =
     (if i < length leftLines \<and>
         (if ignoreBlankLines opts then \<not> list_all isWhiteSpace (leftLines ! i) else True)
      then 1 else 0) \<and>
   length (filter (\<lambda>e. rightLineNum e = Num (Suc j))
             (computeLineDiff toLowerCase leftLines rightLines opts)) =
     (if j < length rightLines \<and>
         (if ignoreBlankLines opts then \<not> list_all isWhiteSpace (rightLines ! j) else True)
      then 1 else 0)"
proof
  let ?d = "computeLineDiff toLowerCase leftLines rightLines opts"
  have "length (filter (\<lambda>e. leftLineNum e = Num (Suc i)) ?d) =
          length (filter (\<lambda>k. k = i) (keptIndices opts leftLines))"
    by (simp only: count_by_side_left [of "Num (Suc i)", simplified] computeLineDiff_sides count_line_number)
  then show "length (filter (\<lambda>e. leftLineNum e = Num (Suc i)) ?d) =
     (if i < length leftLines \<and>
         (if ignoreBlankLines opts then \<not> list_all isWhiteSpace (leftLines ! i) else True)
      then 1 else 0)"
    by (simp only: count_distinct [OF distinct_keptIndices] set_keptIndices)
  have "length (filter (\<lambda>e. rightLineNum e = Num (Suc j)) ?d) =
          length (filter (\<lambda>k. k = j) (keptIndices opts rightLines))"
    by (simp only: count_by_side_right [of "Num (Suc j)", simplified] computeLineDiff_sides count_line_number)
  then show "length (filter (\<lambda>e. rightLineNum e = Num (Suc j)) ?d) =
     (if j < length rightLines \<and>
         (if ignoreBlankLines opts then \<not> list_all isWhiteSpace (rightLines ! j) else True)
      then 1 else 0)"
    by (simp only: count_distinct [OF distinct_keptIndices] set_keptIndices)
qed

lemma leftSide_numbers: "map snd (leftSide es) = filter (\<lambda>x. x \<noteq> NullNum) (map leftLineNum es)"
  by (induction es) auto

lemma rightSide_numbers: "map snd (rightSide es) = filter (\<lambda>x. x \<noteq> NullNum) (map rightLineNum es)"
  by (induction es) auto

lemma sorted_keptIndices: "sorted_wrt (<) (map Suc (keptIndices opts lines))"
  by (simp add: keptIndices_def sorted_wrt_map sorted_wrt_filter)

text \<open>
  C10. For all inputs and every options setting, the \<open>leftLineNum\<close> values of the output
  that are not \<open>null\<close> are numbers and strictly increase in entry order, and so do the
  \<open>rightLineNum\<close> values.
\<close>

theorem computeLineDiff_increasing:
  "\<exists>ls rs.
     filter (\<lambda>x. x \<noteq> NullNum) (map leftLineNum (computeLineDiff toLowerCase leftLines rightLines opts))
       = map Num ls \<and> sorted_wrt (<) ls \<and>
     filter (\<lambda>x. x \<noteq> NullNum) (map rightLineNum (computeLineDiff toLowerCase leftLines rightLines opts))
       = map Num rs \<and> sorted_wrt (<) rs"
proof -
  let ?d = "computeLineDiff toLowerCase leftLines rightLines opts"
  have "filter (\<lambda>x. x \<noteq> NullNum) (map leftLineNum ?d) = map Num (map Suc (keptIndices opts leftLines))"
    by (simp add: leftSide_numbers [symmetric] computeLineDiff_sides comp_def)
  moreover have "filter (\<lambda>x. x \<noteq> NullNum) (map rightLineNum ?d) = map Num (map Suc (keptIndices opts rightLines))"
    by (simp add: rightSide_numbers [symmetric] computeLineDiff_sides comp_def)
  ultimately show ?thesis
    using sorted_keptIndices [of opts leftLines] sorted_keptIndices [of opts rightLines] by blast
qed

section \<open>Identical and empty inputs\<close>

lemma selectedLCS_diagonal: "selectedLCS l l i i = map (\<lambda>k. (k, k)) [0..<i]"
proof (induction i)
  case 0
  then show ?case by (subst selectedLCS_unfold) simp
next
  case (Suc i)
  then show ?case by (subst selectedLCS_unfold) simp
qed

lemma walk_diagonal:
  "length rf = length lf \<Longrightarrow>
     walk lf lm rf rm (map (\<lambda>k. (k, k)) [a..<length lf]) a a =
       map (\<lambda>k. unchangedEntry lf lm rf rm k k) [a..<length lf]"
proof (induction "length lf - a" arbitrary: a)
  case 0
  then show ?case by simp
next
  case (Suc d)
  then have a: "a < length lf" by simp
  have "walk lf lm rf rm (map (\<lambda>k. (k, k)) [Suc a..<length lf]) (Suc a) (Suc a) =
          map (\<lambda>k. unchangedEntry lf lm rf rm k k) [Suc a..<length lf]"
    using Suc by (intro Suc.hyps(1)) simp_all
  then show ?case using a by (simp add: upt_conv_Cons)
qed

lemma mergeRuns_no_deleted: "list_all (\<lambda>e. \<not> isDeleted e) es \<Longrightarrow> mergeRuns es = es"
proof (induction es)
  case Nil
  then show ?case by simp
next
  case (Cons e es)
  then show ?case by (subst mergeRuns.simps(2)) simp
qed

lemma processLine_default [simp]: "processLine toLowerCase defaultOptions line = line"
  by (simp add: processLine_def defaultOptions_def)

lemma keptIndices_default [simp]: "keptIndices defaultOptions lines = [0..<length lines]"
  by (simp add: keptIndices_def defaultOptions_def)

text \<open>
  C2. For every list of lines, \<open>computeLineDiff\<close> of the list with itself, with the default
  options, returns one entry per line, in order, each of type unchanged and carrying the
  line and its number on both sides.
\<close>

theorem computeLineDiff_identical:
  "computeLineDiff toLowerCase lines lines defaultOptions =
     map (\<lambda>i. \<lparr>type = Unchanged,
                 leftLine = Str (lines ! i), leftLineNum = Num (Suc i),
                 rightLine = Str (lines ! i), rightLineNum = Num (Suc i)\<rparr>) [0..<length lines]"
proof -
  let ?n = "length lines"
  have raw: "rawDiff toLowerCase lines lines defaultOptions =
               map (\<lambda>k. unchangedEntry lines [0..<?n] lines [0..<?n] k k) [0..<?n]"
    using walk_diagonal [where lf = lines and rf = lines and a = 0 and lm = "[0..<?n]" and rm = "[0..<?n]"]
    by (simp add: rawDiff_walk sourceLines_eq map_nth selectedLCS_diagonal)
  have "list_all (\<lambda>e. \<not> isDeleted e) (map (\<lambda>k. unchangedEntry lines [0..<?n] lines [0..<?n] k k) [0..<?n])"
    by (simp add: list_all_iff isDeleted_def unchangedEntry_def)
  then have "computeLineDiff toLowerCase lines lines defaultOptions =
               map (\<lambda>k. unchangedEntry lines [0..<?n] lines [0..<?n] k k) [0..<?n]"
    by (simp only: computeLineDiff_def mergePhase_mergeRuns raw mergeRuns_no_deleted)
  also have "\<dots> = map (\<lambda>i. \<lparr>type = Unchanged,
                 leftLine = Str (lines ! i), leftLineNum = Num (Suc i),
                 rightLine = Str (lines ! i), rightLineNum = Num (Suc i)\<rparr>) [0..<?n]"
    by (rule map_cong) (simp_all add: unchangedEntry_def lineAt_def lineNumAt_def)
  finally show ?thesis .
qed

lemma selectedLCS_empty [simp]: "selectedLCS l r 0 j = []" "selectedLCS l r i 0 = []"
  by (subst selectedLCS_unfold, simp)+

lemma mergeRuns_all_deleted: "list_all isDeleted ds \<Longrightarrow> mergeRuns ds = ds"
proof (cases "ds = []")
  case True
  then show ?thesis by simp
next
  case False
  assume "list_all isDeleted ds"
  then have "mergeRuns (ds @ [] @ []) = pairRuns ds [] @ mergeRuns []"
    using False by (intro mergeRuns_run) simp_all
  then show ?thesis by (simp add: pairRuns_def)
qed

lemma keptIndices_Nil [simp]: "keptIndices opts [] = []"
  by (simp add: keptIndices_def)

lemma map_on_kept:
  "map (f (map ((!) lines) ks) ks) [0..<length ks] = map (\<lambda>i. g i) ks"
  if "\<And>k. k < length ks \<Longrightarrow> f (map ((!) lines) ks) ks k = g (ks ! k)"
  using that by (intro nth_equalityI) simp_all

text \<open>
  C9, as the code has it. An empty list of lines is valid input of \<open>computeLineDiff\<close>, for
  every options setting: with no left lines the diff has one added entry per compared right
  line and nothing else, with no right lines one deleted entry per compared left line and
  nothing else. An empty text is not an empty list of lines: \<open>split\<close> turns it into one
  empty line.
\<close>

theorem computeLineDiff_no_lines:
  "computeLineDiff toLowerCase [] rightLines opts =
     map (\<lambda>i. \<lparr>type = Added, leftLine = Null, leftLineNum = NullNum,
                 rightLine = Str (rightLines ! i), rightLineNum = Num (Suc i)\<rparr>)
       (keptIndices opts rightLines) \<and>
   computeLineDiff toLowerCase leftLines [] opts =
     map (\<lambda>i. \<lparr>type = Deleted, leftLine = Str (leftLines ! i), leftLineNum = Num (Suc i),
                 rightLine = Null, rightLineNum = NullNum\<rparr>)
       (keptIndices opts leftLines) \<and>
   splitLines [] = [[]]"
proof (intro conjI)
  let ?ks = "keptIndices opts rightLines"
  have raw: "rawDiff toLowerCase [] rightLines opts =
               map (addedEntry (map ((!) rightLines) ?ks) ?ks) [0..<length ?ks]"
    by (simp add: rawDiff_walk sourceLines_eq)
  have "list_all (\<lambda>e. \<not> isDeleted e) (map (addedEntry (map ((!) rightLines) ?ks) ?ks) [0..<length ?ks])"
    by (simp add: list_all_iff isDeleted_def addedEntry_def)
  then have "computeLineDiff toLowerCase [] rightLines opts =
               map (addedEntry (map ((!) rightLines) ?ks) ?ks) [0..<length ?ks]"
    by (simp only: computeLineDiff_def mergePhase_mergeRuns raw mergeRuns_no_deleted)
  also have "\<dots> = map (\<lambda>i. \<lparr>type = Added, leftLine = Null, leftLineNum = NullNum,
                 rightLine = Str (rightLines ! i), rightLineNum = Num (Suc i)\<rparr>) ?ks"
    by (rule map_on_kept) (simp add: addedEntry_def lineAt_def lineNumAt_def)
  finally show "computeLineDiff toLowerCase [] rightLines opts =
     map (\<lambda>i. \<lparr>type = Added, leftLine = Null, leftLineNum = NullNum,
                 rightLine = Str (rightLines ! i), rightLineNum = Num (Suc i)\<rparr>) ?ks" .
next
  let ?ks = "keptIndices opts leftLines"
  have raw: "rawDiff toLowerCase leftLines [] opts =
               map (deletedEntry (map ((!) leftLines) ?ks) ?ks) [0..<length ?ks]"
    by (simp add: rawDiff_walk sourceLines_eq)
  have "list_all isDeleted (map (deletedEntry (map ((!) leftLines) ?ks) ?ks) [0..<length ?ks])"
    by (simp add: list_all_iff isDeleted_def deletedEntry_def)
  then have "computeLineDiff toLowerCase leftLines [] opts =
               map (deletedEntry (map ((!) leftLines) ?ks) ?ks) [0..<length ?ks]"
    by (simp only: computeLineDiff_def mergePhase_mergeRuns raw mergeRuns_all_deleted)
  also have "\<dots> = map (\<lambda>i. \<lparr>type = Deleted, leftLine = Str (leftLines ! i), leftLineNum = Num (Suc i),
                 rightLine = Null, rightLineNum = NullNum\<rparr>) ?ks"
    by (rule map_on_kept) (simp add: deletedEntry_def lineAt_def lineNumAt_def)
  finally show "computeLineDiff toLowerCase leftLines [] opts =
     map (\<lambda>i. \<lparr>type = Deleted, leftLine = Str (leftLines ! i), leftLineNum = Num (Suc i),
                 rightLine = Null, rightLineNum = NullNum\<rparr>) ?ks" .
next
  show "splitLines [] = [[]]" by simp
qed

text \<open>
  C9 as stated fails on texts: the application splits the empty left text into one empty
  line, which the merge phase pairs with the first right line, so the diff of the empty text
  and the text \<open>a\<close> is one modified entry, not added entries only.
\<close>

theorem appDiff_empty_left_text_counterexample:
  "\<not> list_all (\<lambda>e. type e = Added) (appDiff (\<lambda>s. s) (js '''') (js ''a'') defaultOptions)"
  by code_simp

section \<open>No ceiling on the size of the input\<close>






section \<open>The patch\<close>

subsection \<open>One hunk\<close>

lemma hunkBody_not_Nil [simp]: "hunkBody e \<noteq> []"
  by (simp add: hunkBody_def)

lemma fold_patchStep_unchanged:
  "list_all isUnchanged pre \<Longrightarrow> currentHunk st = [] \<Longrightarrow>
     fold patchStep pre st =
       st\<lparr>leftLineNum' := leftLineNum' st + length pre, rightLineNum' := rightLineNum' st + length pre\<rparr>"
proof (induction pre arbitrary: st)
  case Nil
  then show ?case by simp
next
  case (Cons e pre)
  then have "patchStep e st = st\<lparr>leftLineNum' := leftLineNum' st + 1, rightLineNum' := rightLineNum' st + 1\<rparr>"
    by (simp add: patchStep_def isUnchanged_def)
  then show ?case using Cons by simp
qed

lemma patchStep_open:
  assumes "currentHunk st \<noteq> []"
  shows "currentHunk (patchStep e st) = currentHunk st @ hunkBody e"
    and "hunkLeftStart (patchStep e st) = hunkLeftStart st"
    and "hunkRightStart (patchStep e st) = hunkRightStart st"
    and "hunkLeftCount (patchStep e st) = hunkLeftCount st + leftCount [e]"
    and "hunkRightCount (patchStep e st) = hunkRightCount st + rightCount [e]"
  using assms by (cases "type e"; simp add: patchStep_def hunkBody_def leftCount_def rightCount_def Let_def)+

lemma fold_patchStep_open:
  "currentHunk st \<noteq> [] \<Longrightarrow>
     currentHunk (fold patchStep es st) = currentHunk st @ concat (map hunkBody es) \<and>
     hunkLeftStart (fold patchStep es st) = hunkLeftStart st \<and>
     hunkRightStart (fold patchStep es st) = hunkRightStart st \<and>
     hunkLeftCount (fold patchStep es st) = hunkLeftCount st + leftCount es \<and>
     hunkRightCount (fold patchStep es st) = hunkRightCount st + rightCount es"
proof (induction es arbitrary: st)
  case Nil
  then show ?case by (simp add: leftCount_def rightCount_def)
next
  case (Cons e es)
  have ne: "currentHunk (patchStep e st) \<noteq> []"
    using patchStep_open(1) [OF Cons.prems] by simp
  have c: "leftCount (e # es) = leftCount [e] + leftCount es"
          "rightCount (e # es) = rightCount [e] + rightCount es"
    by (simp_all add: leftCount_def rightCount_def)
  show ?case
    using Cons.IH [OF ne] patchStep_open [OF Cons.prems, of e] by (simp add: c)
qed

lemma patchStep_first:
  assumes "currentHunk st = []" "type e \<noteq> Unchanged"
  shows "currentHunk (patchStep e st) = hunkBody e"
    and "hunkLeftStart (patchStep e st) = numOr (leftLineNum e) (leftLineNum' st)"
    and "hunkRightStart (patchStep e st) = numOr (rightLineNum e) (rightLineNum' st)"
    and "hunkLeftCount (patchStep e st) = leftCount [e]"
    and "hunkRightCount (patchStep e st) = rightCount [e]"
  using assms by (cases "type e"; simp add: patchStep_def hunkBody_def leftCount_def rightCount_def Let_def)+

lemma rangeLine_rangeText:
  "rangeLine st = rangeText (hunkLeftStart st) (hunkLeftCount st) (hunkRightStart st) (hunkRightCount st)"
  by (simp add: rangeLine_def rangeText_def)

lemma patchLines_singleHunk:
  "patchLines diff leftFileName rightFileName =
     [js ''--- '' @ leftFileName, js ''+++ '' @ rightFileName] @ singleHunk diff"
proof -
  define pre where "pre = takeWhile isUnchanged diff"
  define rest where "rest = dropWhile isUnchanged diff"
  have d: "diff = pre @ rest" by (simp add: pre_def rest_def)
  have pre: "list_all isUnchanged pre"
    by (auto simp: pre_def list_all_iff dest: set_takeWhileD)
  define st0 where "st0 = fold patchStep pre patchInit"
  have st0: "currentHunk st0 = []" "leftLineNum' st0 = Suc (length pre)" "rightLineNum' st0 = Suc (length pre)"
    using fold_patchStep_unchanged [OF pre, of patchInit] by (simp_all add: st0_def patchInit_def)
  have f: "fold patchStep diff patchInit = fold patchStep rest st0"
    by (simp add: d st0_def)
  show ?thesis
  proof (cases rest)
    case Nil
    then show ?thesis
      using st0(1) by (simp add: patchLines_def flushHunk_def f singleHunk_def rest_def [symmetric])
  next
    case (Cons e es)
    then have e: "type e \<noteq> Unchanged"
      using hd_dropWhile [of isUnchanged diff] by (simp add: rest_def isUnchanged_def)
    define st1 where "st1 = patchStep e st0"
    have ne: "currentHunk st1 \<noteq> []"
      using patchStep_first(1) [OF st0(1) e] by (simp add: st1_def)
    define st2 where "st2 = fold patchStep es st1"
    have st2: "currentHunk st2 = concat (map hunkBody (e # es))"
      "hunkLeftStart st2 = numOr (leftLineNum e) (Suc (length pre))"
      "hunkRightStart st2 = numOr (rightLineNum e) (Suc (length pre))"
      "hunkLeftCount st2 = leftCount (e # es)"
      "hunkRightCount st2 = rightCount (e # es)"
      using fold_patchStep_open [OF ne, of es] patchStep_first [OF st0(1) e] st0(2,3)
      by (simp_all add: st2_def st1_def leftCount_def rightCount_def)
    have "fold patchStep diff patchInit = st2"
      by (simp add: f Cons st2_def st1_def)
    then show ?thesis
      using st2 Cons
      by (simp add: patchLines_def flushHunk_def singleHunk_def rest_def [symmetric] pre_def [symmetric]
            rangeLine_rangeText)
  qed
qed

text \<open>
  C6, as the code has it. For every pair of input texts, the patch is the two header lines
  followed by at most one hunk: when some entry of the diff is not unchanged, the hunk opens
  at the first such entry and runs to the end of the diff, with a line starting with a space
  for every unchanged entry after it; its range line gives, for each side, the line number
  of that first entry (or, when the entry has none on that side, one more than the number
  of unchanged entries before it) and the number of lines of the hunk on that side. When
  all entries are unchanged the patch is the two header lines.
\<close>

theorem generateUnifiedPatch_single_hunk:
  "generateUnifiedPatch toLowerCase leftCode rightCode leftFileName rightFileName =
     joinLines ([js ''--- '' @ leftFileName, js ''+++ '' @ rightFileName] @
                singleHunk (computeLineDiff toLowerCase (splitLines leftCode) (splitLines rightCode)
                              defaultOptions))"
  by (simp add: generateUnifiedPatch_def Let_def patchLines_singleHunk)

text \<open>
  C6 as stated fails: the diff of \<open>a, b, c\<close> and \<open>x, b, y\<close> has two runs of changed
  entries around the unchanged \<open>b\<close>; the patch has one hunk \<open>@@ -1,3 +1,3 @@\<close> holding
  \<open>-a +x  b -c +y\<close>, not the two hunks of one pair each.
\<close>

theorem generateUnifiedPatch_minimal_hunks_counterexample:
  "generateUnifiedPatch (\<lambda>s. s) (js ''a\<newline>b\<newline>c'') (js ''x\<newline>b\<newline>y'')
       defaultLeftFileName defaultRightFileName \<noteq>
     joinLines ([js ''--- '' @ defaultLeftFileName, js ''+++ '' @ defaultRightFileName] @
                minimalHunks 1 1 (computeLineDiff (\<lambda>s. s) (splitLines (js ''a\<newline>b\<newline>c''))
                                    (splitLines (js ''x\<newline>b\<newline>y'')) defaultOptions))"
  by code_simp

subsection \<open>Lines and numbers as text\<close>

lemma splitLines_not_Nil [simp]: "splitLines s \<noteq> []"
  by (induction s) (auto split: list.splits)

lemma joinLines_Cons: "ls \<noteq> [] \<Longrightarrow> joinLines (l # ls) = l @ 0x0A # joinLines ls"
  by (cases ls) simp_all

lemma joinLines_splitLines: "joinLines (splitLines s) = s"
proof (induction s)
  case Nil
  then show ?case by simp
next
  case (Cons c s)
  show ?case
  proof (cases "c = 0x0A")
    case True
    then show ?thesis using Cons by (simp add: joinLines_Cons)
  next
    case False
    obtain l ls where sp: "splitLines s = l # ls"
      using splitLines_not_Nil [of s] by (cases "splitLines s") auto
    have "joinLines ((c # l) # ls) = c # joinLines (l # ls)"
      by (cases ls) simp_all
    then show ?thesis using Cons False sp by simp
  qed
qed

lemma splitLines_no_newline: "l \<in> set (splitLines s) \<Longrightarrow> 0x0A \<notin> set l"
proof (induction s arbitrary: l)
  case Nil
  then show ?case by simp
next
  case (Cons c s)
  show ?case
  proof (cases "c = 0x0A")
    case True
    then show ?thesis using Cons by auto
  next
    case False
    obtain k ks where sp: "splitLines s = k # ks"
      using splitLines_not_Nil [of s] by (cases "splitLines s") auto
    then have "l = c # k \<or> l \<in> set ks" using Cons.prems False by simp
    then show ?thesis using Cons.IH [of k] Cons.IH [of l] sp False by auto
  qed
qed

lemma splitLines_line: "0x0A \<notin> set l \<Longrightarrow> splitLines l = [l]"
  by (induction l) auto

lemma splitLines_append: "0x0A \<notin> set l \<Longrightarrow> splitLines (l @ 0x0A # s) = l # splitLines s"
  by (induction l) auto

lemma splitLines_joinLines:
  "ls \<noteq> [] \<Longrightarrow> \<forall>l \<in> set ls. 0x0A \<notin> set l \<Longrightarrow> splitLines (joinLines ls) = ls"
proof (induction ls)
  case Nil
  then show ?case by simp
next
  case (Cons l ls)
  show ?case
  proof (cases "ls = []")
    case True
    then show ?thesis using Cons.prems by (simp add: splitLines_line)
  next
    case False
    then show ?thesis using Cons by (simp add: joinLines_Cons splitLines_append)
  qed
qed

lemma digit_unat: "d < 10 \<Longrightarrow> unat (digitChar d) = 48 + d"
  unfolding digitChar_def by (subst unat_of_nat) simp

lemma isDigit_digit: "d < 10 \<Longrightarrow> isDigit (digitChar d)"
  unfolding isDigit_def by (subst word_le_nat_alt, subst word_le_nat_alt, subst digit_unat, simp, subst digit_unat) simp_all

lemma decimal_digits: "list_all isDigit (decimal n)"
proof (induction n rule: decimal.induct)
  case (1 n)
  show ?case
  proof (cases "n < 10")
    case True
    then show ?thesis by (subst decimal.simps) (simp add: isDigit_digit)
  next
    case False
    then show ?thesis using 1 by (subst decimal.simps) (simp add: isDigit_digit)
  qed
qed

lemma decimal_not_Nil [simp]: "decimal n \<noteq> []"
  by (subst decimal.simps) simp

lemma parseNat_snoc: "parseNat (s @ [c]) = 10 * parseNat s + (unat c - 48)"
  by (simp add: parseNat_def)

lemma parseNat_decimal: "parseNat (decimal n) = n"
proof (induction n rule: decimal.induct)
  case (1 n)
  show ?case
  proof (cases "n < 10")
    case True
    then show ?thesis
      by (subst decimal.simps) (simp add: parseNat_def digit_unat)
  next
    case False
    then have "parseNat (decimal (n div 10)) = n div 10" using 1 by simp
    then show ?thesis
      using False by (subst decimal.simps) (simp add: parseNat_snoc digit_unat)
  qed
qed

lemma parseNumber_decimal:
  "rest = [] \<or> \<not> isDigit (hd rest) \<Longrightarrow> parseNumber (decimal n @ rest) = Some (n, rest)"
  using span_all [OF decimal_digits, of rest n]
  by (simp add: parseNumber_def parseNat_decimal)

lemma stripPrefix_append [simp]: "stripPrefix xs (xs @ ys) = Some ys"
  by (induction xs) simp_all

lemma stripPrefix_self [simp]: "stripPrefix xs xs = Some []"
  using stripPrefix_append [of xs "[]"] by simp

lemma parseSide_decimal:
  assumes "rest = [] \<or> \<not> isDigit (hd rest)"
  shows "parseSide (decimal start @ js '','' @ decimal count @ rest) = Some (start, count, rest)"
proof -
  have c: "js '','' = [0x2C]" by (simp add: js_def)
  have 1: "parseNumber (decimal start @ js '','' @ decimal count @ rest)
           = Some (start, js '','' @ decimal count @ rest)"
    by (rule parseNumber_decimal) (simp add: c isDigit_def)
  have 2: "parseNumber (decimal count @ rest) = Some (count, rest)"
    using assms by (rule parseNumber_decimal)
  show ?thesis
    unfolding parseSide_def
    by (simp only: stripPrefix_append option.case prod.case 1 2)
qed

lemma parseRange_rangeText: "parseRange (rangeText ls lc rs rc) = Some (ls, lc, rs, rc)"
proof -
  have c: "js '' +'' = [0x20, 0x2B]" "js '' @@'' = [0x20, 0x40, 0x40]"
    by (simp_all add: js_def)
  have 1: "parseSide (decimal ls @ js '','' @ decimal lc @ js '' +'' @ decimal rs @ js '','' @ decimal rc @ js '' @@'')
           = Some (ls, lc, js '' +'' @ decimal rs @ js '','' @ decimal rc @ js '' @@'')"
    by (rule parseSide_decimal) (simp add: c isDigit_def)
  have 2: "parseSide (decimal rs @ js '','' @ decimal rc @ js '' @@'') = Some (rs, rc, js '' @@'')"
    by (rule parseSide_decimal) (simp add: c isDigit_def)
  show ?thesis
    unfolding parseRange_def rangeText_def
    by (simp only: stripPrefix_append stripPrefix_self option.case prod.case 1 2)
qed

subsection \<open>The entries of a diff with the default options\<close>

lemma list_all_pairRuns:
  assumes "list_all P ds" "list_all P as" "list_all isDeleted ds" "list_all isAdded as"
    and "\<And>d a. P d \<Longrightarrow> P a \<Longrightarrow> isDeleted d \<Longrightarrow> isAdded a \<Longrightarrow> P (modifiedEntry d a)"
  shows "list_all P (pairRuns ds as)"
proof -
  have "P (modifiedEntry d a)" if "(d, a) \<in> set (zip ds as)" for d a
  proof -
    have "d \<in> set ds" "a \<in> set as"
      using that by (auto dest: set_zip_leftD set_zip_rightD)
    then show ?thesis using assms by (auto simp: list_all_iff)
  qed
  then have "list_all P (map (\<lambda>(d, a). modifiedEntry d a) (zip ds as))"
    by (auto simp: list_all_iff)
  moreover have "list_all P (drop (length as) ds)" "list_all P (drop (length ds) as)"
    using assms(1,2) by (auto simp: list_all_iff dest: in_set_dropD)
  ultimately show ?thesis by (simp add: pairRuns_def)
qed

lemma list_all_mergeRuns:
  assumes "\<And>d a. P d \<Longrightarrow> P a \<Longrightarrow> isDeleted d \<Longrightarrow> isAdded a \<Longrightarrow> P (modifiedEntry d a)"
  shows "list_all P es \<Longrightarrow> list_all P (mergeRuns es)"
proof (induction es rule: mergeRuns.induct)
  case 1
  then show ?case by simp
next
  case (2 e es)
  show ?case
  proof (cases "isDeleted e")
    case False
    then have "mergeRuns (e # es) = e # mergeRuns es"
      by (subst mergeRuns.simps(2)) simp
    then show ?thesis using 2 False by simp
  next
    case True
    define xs where "xs = e # es"
    define ds where "ds = takeWhile isDeleted xs"
    define as where "as = takeWhile isAdded (dropWhile isDeleted xs)"
    define rest where "rest = dropWhile isAdded (dropWhile isDeleted xs)"
    have xs: "xs = ds @ as @ rest"
      by (simp add: ds_def as_def rest_def)
    have ne: "ds \<noteq> []" using True by (simp add: ds_def xs_def)
    have all: "list_all P ds" "list_all P as" "list_all P rest"
      using "2.prems" xs by (simp_all add: xs_def [symmetric])
    have dsd: "list_all isDeleted ds"
      by (auto simp: ds_def list_all_iff dest: set_takeWhileD)
    have asa: "list_all isAdded as"
      by (auto simp: as_def list_all_iff dest: set_takeWhileD)
    have m: "mergeRuns (e # es) = pairRuns ds as @ mergeRuns rest"
      using True ne by (subst mergeRuns.simps(2)) (simp add: ds_def as_def rest_def xs_def mergeRun_pairRuns)
    have ih: "list_all P (mergeRuns rest)"
      using "2.IH"(1) True all(3) by (simp add: rest_def xs_def)
    show ?thesis
      using m ih list_all_pairRuns [OF all(1,2) dsd asa assms] by simp
  qed
qed

lemma wellFormed_modified:
  "wellFormed d \<Longrightarrow> wellFormed a \<Longrightarrow> isDeleted d \<Longrightarrow> isAdded a \<Longrightarrow> wellFormed (modifiedEntry d a)"
  by (simp add: wellFormed_def modifiedEntry_def isDeleted_def isAdded_def)

lemma wellFormed_entries [simp]:
  "wellFormed (deletedEntry lf lm i)" "wellFormed (addedEntry rf rm j)"
  by (simp_all add: wellFormed_def deletedEntry_def addedEntry_def)

lemma wellFormed_walk:
  "list_all (\<lambda>p. fst p < length lf \<and> snd p < length rf \<and> lf ! fst p = rf ! snd p) ps \<Longrightarrow>
     list_all wellFormed (walk lf lm rf rm ps li ri)"
proof (induction ps arbitrary: li ri)
  case Nil
  then show ?case by (auto simp: list_all_iff)
next
  case (Cons p ps)
  then have "wellFormed (unchangedEntry lf lm rf rm (fst p) (snd p))"
    by (simp add: wellFormed_def unchangedEntry_def lineAt_def)
  then show ?case using Cons by (auto simp: list_all_iff)
qed

lemma map_processLine_default [simp]: "map (processLine toLowerCase defaultOptions) ls = ls"
  by (induction ls) simp_all

lemma wellFormed_computeLineDiff:
  "list_all wellFormed (computeLineDiff toLowerCase leftLines rightLines defaultOptions)"
proof -
  have "list_all (\<lambda>p. fst p < length leftLines \<and> snd p < length rightLines \<and>
                      leftLines ! fst p = rightLines ! snd p)
          (selectedLCS leftLines rightLines (length leftLines) (length rightLines))"
    by (rule selectedLCS_bounds)
  then have "list_all wellFormed (rawDiff toLowerCase leftLines rightLines defaultOptions)"
    by (simp add: rawDiff_walk sourceLines_eq map_nth wellFormed_walk)
  then show ?thesis
    unfolding computeLineDiff_def mergePhase_mergeRuns
    by (rule list_all_mergeRuns [rotated]) (rule wellFormed_modified)
qed

subsection \<open>Applying the hunk\<close>

lemma counts_Cons:
  "leftCount (e # es) = (if type e = Added then leftCount es else Suc (leftCount es))"
  "rightCount (e # es) = (if type e = Deleted then rightCount es else Suc (rightCount es))"
  by (simp_all add: leftCount_def rightCount_def)

lemma applyHunks_body:
  "list_all wellFormed es \<Longrightarrow> map fst (leftSide es) = map Str ll \<Longrightarrow>
   map fst (rightSide es) = map Str rr \<Longrightarrow>
     applyHunks (concat (map hunkBody es)) (leftCount es) (rightCount es) ll pos = Some rr"
proof (induction es arbitrary: ll rr pos)
  case Nil
  then show ?case by (simp add: leftCount_def rightCount_def)
next
  case (Cons e es)
  have wf: "wellFormed e" and wfs: "list_all wellFormed es" using Cons.prems(1) by simp_all
  show ?case
  proof (cases "type e")
    case Unchanged
    then have n: "leftLineNum e \<noteq> NullNum" "rightLineNum e \<noteq> NullNum" "leftLine e = rightLine e"
      using wf by (simp_all add: wellFormed_def)
    obtain s ll' where l: "ll = s # ll'" "leftLine e = Str s" "map fst (leftSide es) = map Str ll'"
      using Cons.prems(2) n by (auto simp: Cons_eq_map_conv)
    obtain t rr' where r: "rr = t # rr'" "rightLine e = Str t" "map fst (rightSide es) = map Str rr'"
      using Cons.prems(3) n by (auto simp: Cons_eq_map_conv)
    have st: "t = s" using n(3) l(2) r(2) by simp
    have "applyHunks (concat (map hunkBody es)) (leftCount es) (rightCount es) ll' (pos + 1) = Some rr'"
      using wfs l(3) r(3) by (rule Cons.IH)
    moreover have "hunkBody e = [0x20 # s]"
      using Unchanged l(2) by (simp add: hunkBody_def lineText_def)
    ultimately show ?thesis
      using Unchanged by (simp add: counts_Cons l(1) r(1) st)
  next
    case Deleted
    then have n: "leftLineNum e \<noteq> NullNum" "rightLineNum e = NullNum"
      using wf by (simp_all add: wellFormed_def)
    obtain s ll' where l: "ll = s # ll'" "leftLine e = Str s" "map fst (leftSide es) = map Str ll'"
      using Cons.prems(2) n by (auto simp: Cons_eq_map_conv)
    have r: "map fst (rightSide es) = map Str rr" using Cons.prems(3) n by simp
    have "applyHunks (concat (map hunkBody es)) (leftCount es) (rightCount es) ll' (pos + 1) = Some rr"
      using wfs l(3) r by (rule Cons.IH)
    moreover have "hunkBody e = [0x2D # s]"
      using Deleted l(2) by (simp add: hunkBody_def lineText_def)
    ultimately show ?thesis
      using Deleted by (simp add: counts_Cons l(1))
  next
    case Added
    then have n: "leftLineNum e = NullNum" "rightLineNum e \<noteq> NullNum"
      using wf by (simp_all add: wellFormed_def)
    have l: "map fst (leftSide es) = map Str ll" using Cons.prems(2) n by simp
    obtain t rr' where r: "rr = t # rr'" "rightLine e = Str t" "map fst (rightSide es) = map Str rr'"
      using Cons.prems(3) n by (auto simp: Cons_eq_map_conv)
    have "applyHunks (concat (map hunkBody es)) (leftCount es) (rightCount es) ll pos = Some rr'"
      using wfs l r(3) by (rule Cons.IH)
    moreover have "hunkBody e = [0x2B # t]"
      using Added r(2) by (simp add: hunkBody_def lineText_def)
    ultimately show ?thesis
      using Added by (simp add: counts_Cons r(1))
  next
    case Modified
    then have n: "leftLineNum e \<noteq> NullNum" "rightLineNum e \<noteq> NullNum"
      using wf by (simp_all add: wellFormed_def)
    obtain s ll' where l: "ll = s # ll'" "leftLine e = Str s" "map fst (leftSide es) = map Str ll'"
      using Cons.prems(2) n by (auto simp: Cons_eq_map_conv)
    obtain t rr' where r: "rr = t # rr'" "rightLine e = Str t" "map fst (rightSide es) = map Str rr'"
      using Cons.prems(3) n by (auto simp: Cons_eq_map_conv)
    have "applyHunks (concat (map hunkBody es)) (leftCount es) (rightCount es) ll' (pos + 1) = Some rr'"
      using wfs l(3) r(3) by (rule Cons.IH)
    moreover have "hunkBody e = [0x2D # s, 0x2B # t]"
      using Modified l(2) r(2) by (simp add: hunkBody_def lineText_def)
    ultimately show ?thesis
      using Modified by (simp add: counts_Cons l(1) r(1))
  qed
qed

lemma hunkBody_no_newline:
  "list_all wellFormed es \<Longrightarrow> map fst (leftSide es) = map Str ll \<Longrightarrow>
   map fst (rightSide es) = map Str rr \<Longrightarrow>
   list_all (\<lambda>l. 0x0A \<notin> set l) ll \<Longrightarrow> list_all (\<lambda>l. 0x0A \<notin> set l) rr \<Longrightarrow>
     list_all (\<lambda>l. 0x0A \<notin> set l) (concat (map hunkBody es))"
proof (induction es arbitrary: ll rr)
  case Nil
  then show ?case by simp
next
  case (Cons e es)
  have wf: "wellFormed e" and wfs: "list_all wellFormed es" using Cons.prems(1) by simp_all
  show ?case
  proof (cases "type e")
    case Unchanged
    then have n: "leftLineNum e \<noteq> NullNum" "rightLineNum e \<noteq> NullNum" "leftLine e = rightLine e"
      using wf by (simp_all add: wellFormed_def)
    obtain s ll' where l: "ll = s # ll'" "leftLine e = Str s" "map fst (leftSide es) = map Str ll'"
      using Cons.prems(2) n by (auto simp: Cons_eq_map_conv)
    obtain t rr' where r: "rr = t # rr'" "rightLine e = Str t" "map fst (rightSide es) = map Str rr'"
      using Cons.prems(3) n by (auto simp: Cons_eq_map_conv)
    have "list_all (\<lambda>l. 0x0A \<notin> set l) (concat (map hunkBody es))"
      using wfs l(3) r(3) Cons.prems(4,5) by (intro Cons.IH [of ll' rr']) (simp_all add: l r)
    moreover have "hunkBody e = [0x20 # s]"
      using Unchanged l(2) by (simp add: hunkBody_def lineText_def)
    ultimately show ?thesis
      using Cons.prems(4) by (simp add: l(1))
  next
    case Deleted
    then have n: "leftLineNum e \<noteq> NullNum" "rightLineNum e = NullNum"
      using wf by (simp_all add: wellFormed_def)
    obtain s ll' where l: "ll = s # ll'" "leftLine e = Str s" "map fst (leftSide es) = map Str ll'"
      using Cons.prems(2) n by (auto simp: Cons_eq_map_conv)
    have r: "map fst (rightSide es) = map Str rr" using Cons.prems(3) n by simp
    have "list_all (\<lambda>l. 0x0A \<notin> set l) (concat (map hunkBody es))"
      using wfs l(3) r Cons.prems(4,5) by (intro Cons.IH [of ll' rr]) (simp_all add: l)
    moreover have "hunkBody e = [0x2D # s]"
      using Deleted l(2) by (simp add: hunkBody_def lineText_def)
    ultimately show ?thesis
      using Cons.prems(4) by (simp add: l(1))
  next
    case Added
    then have n: "leftLineNum e = NullNum" "rightLineNum e \<noteq> NullNum"
      using wf by (simp_all add: wellFormed_def)
    have l: "map fst (leftSide es) = map Str ll" using Cons.prems(2) n by simp
    obtain t rr' where r: "rr = t # rr'" "rightLine e = Str t" "map fst (rightSide es) = map Str rr'"
      using Cons.prems(3) n by (auto simp: Cons_eq_map_conv)
    have "list_all (\<lambda>l. 0x0A \<notin> set l) (concat (map hunkBody es))"
      using wfs l r(3) Cons.prems(4,5) by (intro Cons.IH [of ll rr']) (simp_all add: r)
    moreover have "hunkBody e = [0x2B # t]"
      using Added r(2) by (simp add: hunkBody_def lineText_def)
    ultimately show ?thesis
      using Cons.prems(5) by (simp add: r(1))
  next
    case Modified
    then have n: "leftLineNum e \<noteq> NullNum" "rightLineNum e \<noteq> NullNum"
      using wf by (simp_all add: wellFormed_def)
    obtain s ll' where l: "ll = s # ll'" "leftLine e = Str s" "map fst (leftSide es) = map Str ll'"
      using Cons.prems(2) n by (auto simp: Cons_eq_map_conv)
    obtain t rr' where r: "rr = t # rr'" "rightLine e = Str t" "map fst (rightSide es) = map Str rr'"
      using Cons.prems(3) n by (auto simp: Cons_eq_map_conv)
    have "list_all (\<lambda>l. 0x0A \<notin> set l) (concat (map hunkBody es))"
      using wfs l(3) r(3) Cons.prems(4,5) by (intro Cons.IH [of ll' rr']) (simp_all add: l r)
    moreover have "hunkBody e = [0x2D # s, 0x2B # t]"
      using Modified l(2) r(2) by (simp add: hunkBody_def lineText_def)
    ultimately show ?thesis
      using Cons.prems(4,5) by (simp add: l(1) r(1))
  qed
qed

lemma rangeText_no_newline: "0x0A \<notin> set (rangeText ls lc rs rc)"
proof -
  have "\<not> isDigit 0x0A" by (simp add: isDigit_def)
  then have "0x0A \<notin> set (decimal n)" for n
    using decimal_digits [of n] by (auto simp: list_all_iff)
  then show ?thesis by (simp add: rangeText_def js_def)
qed
lemma append_eq_map_split:
  assumes "xs @ ys = map f zs"
  shows "xs = map f (take (length xs) zs)" "ys = map f (drop (length xs) zs)" "length xs \<le> length zs"
proof -
  have "take (length xs) (xs @ ys) = take (length xs) (map f zs)"
       "drop (length xs) (xs @ ys) = drop (length xs) (map f zs)"
    using assms by simp_all
  then show "xs = map f (take (length xs) zs)" "ys = map f (drop (length xs) zs)"
    by (simp_all add: take_map drop_map)
  have "length (xs @ ys) = length (map f zs)" using assms by simp
  then show "length xs \<le> length zs" by simp
qed

lemma map_nth_upt: "map (\<lambda>i. f (xs ! i)) [0..<length xs] = map f xs"
  by (rule nth_equalityI) simp_all

lemma sides_lines:
  assumes "side = map (\<lambda>i. (Str (ls ! i), Num (Suc i))) [0..<length ls]"
  shows "map fst side = map Str ls" "map snd side = map (\<lambda>i. Num (Suc i)) [0..<length ls]"
  using map_nth_upt [of Str ls] by (simp_all add: assms comp_def)

lemma sides_unchanged:
  "list_all isUnchanged pre \<Longrightarrow> list_all wellFormed pre \<Longrightarrow>
     map fst (leftSide pre) = map fst (rightSide pre) \<and>
     length (leftSide pre) = length pre \<and> length (rightSide pre) = length pre"
  by (induction pre) (simp_all add: isUnchanged_def wellFormed_def)

lemma inj_Str_map: "map Str xs = map Str ys \<Longrightarrow> xs = ys"
  by (simp add: inj_on_def)

lemma first_changed_number:
  assumes "map snd side = map (\<lambda>i. Num (Suc i)) [0..<n]" "side = a @ b" "length a = k"
    "b = (l, x) # b'"
  shows "x = Num (Suc k)"
proof -
  have "map snd a @ map snd b = map (\<lambda>i. Num (Suc i)) [0..<n]"
    using assms(1,2) by simp
  from append_eq_map_split(2) [OF this] have
    "map snd b = map (\<lambda>i. Num (Suc i)) (drop k [0..<n])" using assms(3) by simp
  then have "x # map snd b' = map (\<lambda>i. Num (Suc i)) [k..<n]"
    using assms(4) by simp
  then show ?thesis by (cases "k < n") (simp_all add: upt_conv_Cons)
qed

lemma leftCount_leftSide: "list_all wellFormed es \<Longrightarrow> length (leftSide es) = leftCount es"
  by (induction es) (auto simp: counts_Cons leftCount_def wellFormed_def split: etype.splits)

lemma applyHunks_singleHunk:
  assumes wf: "list_all wellFormed d"
    and ls: "leftSide d = map (\<lambda>i. (Str (L ! i), Num (Suc i))) [0..<length L]"
    and rs: "rightSide d = map (\<lambda>i. (Str (R ! i), Num (Suc i))) [0..<length R]"
  shows "applyHunks (singleHunk d) 0 0 L 1 = (if emptyLeftRange d then None else Some R)"
proof -
  define pre where "pre = takeWhile isUnchanged d"
  define rest where "rest = dropWhile isUnchanged d"
  define k where "k = length pre"
  have d: "d = pre @ rest" by (simp add: pre_def rest_def)
  have pre: "list_all isUnchanged pre"
    by (auto simp: pre_def list_all_iff dest: set_takeWhileD)
  have wfp: "list_all wellFormed pre" and wfr: "list_all wellFormed rest"
    using wf by (simp_all add: d)
  have su: "map fst (leftSide pre) = map fst (rightSide pre)"
           "length (leftSide pre) = k" "length (rightSide pre) = k"
    using sides_unchanged [OF pre wfp] by (simp_all add: k_def)
  have lf: "map fst (leftSide pre) @ map fst (leftSide rest) = map Str L"
    using sides_lines(1) [OF ls] by (simp add: d)
  have rf: "map fst (rightSide pre) @ map fst (rightSide rest) = map Str R"
    using sides_lines(1) [OF rs] by (simp add: d)
  have lenl: "length (map fst (leftSide pre)) = k" and lenr: "length (map fst (rightSide pre)) = k"
    using su(2,3) by simp_all
  have l1: "map fst (leftSide pre) = map Str (take k L)" "map fst (leftSide rest) = map Str (drop k L)"
           "k \<le> length L"
    using append_eq_map_split [OF lf] unfolding lenl by this+
  have r1: "map fst (rightSide pre) = map Str (take k R)" "map fst (rightSide rest) = map Str (drop k R)"
           "k \<le> length R"
    using append_eq_map_split [OF rf] unfolding lenr by this+
  have tk: "take k L = take k R"
    using l1(1) r1(1) su(1) by (intro inj_Str_map) simp
  have body: "applyHunks (concat (map hunkBody rest)) (leftCount rest) (rightCount rest) (drop k L) pos
                = Some (drop k R)" for pos
    using wfr l1(2) r1(2) by (rule applyHunks_body)
  have lenL: "length L = k + leftCount rest"
  proof -
    have "length (map fst (leftSide rest)) = length (map Str (drop k L))"
      using l1(2) by simp
    then have "leftCount rest = length L - k"
      by (simp add: leftCount_leftSide [OF wfr])
    then show ?thesis using l1(3) by simp
  qed
  have elr: "emptyLeftRange d = (rest \<noteq> [] \<and> leftCount rest = 0)"
    by (simp add: emptyLeftRange_def rest_def)
  show ?thesis
  proof (cases rest)
    case Nil
    then have "drop k L = []" "drop k R = []" using l1(2) r1(2) by simp_all
    then have "L = R" using tk by (metis append_take_drop_id)
    then show ?thesis using Nil elr by (simp add: singleHunk_def rest_def [symmetric])
  next
    case (Cons e es)
    have nl: "numOr (leftLineNum e) (Suc k) = Suc k"
    proof (cases "leftLineNum e = NullNum")
      case True
      then show ?thesis by (simp add: numOr_def)
    next
      case False
      have "leftLineNum e = Num (Suc k)"
      proof (rule first_changed_number)
        show "map snd (leftSide d) = map (\<lambda>i. Num (Suc i)) [0..<length L]"
          by (rule sides_lines(2) [OF ls])
        show "leftSide d = leftSide pre @ leftSide rest" by (simp add: d)
        show "length (leftSide pre) = k" by (rule su(2))
        show "leftSide rest = (leftLine e, leftLineNum e) # leftSide es"
          using False Cons by simp
      qed
      then show ?thesis by (simp add: numOr_def)
    qed
    have sh: "singleHunk d =
        rangeText (Suc k) (leftCount rest) (numOr (rightLineNum e) (Suc k)) (rightCount rest)
        # concat (map hunkBody rest)"
      using Cons nl by (simp add: singleHunk_def rest_def [symmetric] pre_def [symmetric] k_def)
    show ?thesis
    proof (cases "leftCount rest = 0")
      case True
      then have "length L < rangeFirst (Suc k) (leftCount rest) - 1"
        using lenL by (simp add: rangeFirst_def)
      then have "applyHunks (singleHunk d) 0 0 L 1 = None"
        unfolding sh by (simp add: parseRange_rangeText)
      then show ?thesis using True Cons elr by simp
    next
      case False
      then have rf: "rangeFirst (Suc k) (leftCount rest) = Suc k"
        by (simp add: rangeFirst_def)
      have "applyHunks (singleHunk d) 0 0 L 1 =
              map_option ((@) (take k L))
                (applyHunks (concat (map hunkBody rest)) (leftCount rest) (rightCount rest) (drop k L) (Suc k))"
        unfolding sh using l1(3) by (simp add: parseRange_rangeText rf)
      also have "\<dots> = Some (take k L @ drop k R)" by (simp add: body)
      also have "take k L @ drop k R = R" by (simp add: tk)
      finally show ?thesis using False elr by simp
    qed
  qed
qed

lemma singleHunk_no_newline:
  assumes wf: "list_all wellFormed d"
    and ls: "leftSide d = map (\<lambda>i. (Str (L ! i), Num (Suc i))) [0..<length L]"
    and rs: "rightSide d = map (\<lambda>i. (Str (R ! i), Num (Suc i))) [0..<length R]"
    and nl: "list_all (\<lambda>l. 0x0A \<notin> set l) L" "list_all (\<lambda>l. 0x0A \<notin> set l) R"
  shows "list_all (\<lambda>l. 0x0A \<notin> set l) (singleHunk d)"
proof -
  have "map fst (leftSide d) = map Str L" "map fst (rightSide d) = map Str R"
    by (rule sides_lines(1) [OF ls], rule sides_lines(1) [OF rs])
  then have "list_all (\<lambda>l. 0x0A \<notin> set l) (concat (map hunkBody d))"
    using wf nl by (intro hunkBody_no_newline [of d L R])
  moreover have "set (dropWhile isUnchanged d) \<subseteq> set d"
    by (rule set_dropWhileD [THEN subsetI])
  ultimately have body: "list_all (\<lambda>l. 0x0A \<notin> set l) (concat (map hunkBody (dropWhile isUnchanged d)))"
    by (auto simp: list_all_iff)
  show ?thesis
  proof (cases "dropWhile isUnchanged d")
    case Nil
    show ?thesis unfolding singleHunk_def Nil by simp
  next
    case (Cons e es)
    show ?thesis using body unfolding singleHunk_def Cons by (simp add: rangeText_no_newline)
  qed
qed

text \<open>
  For all input texts the patch applies to the left text exactly when its hunk has a left
  line or it has no hunk, and then the result is the right text.
\<close>

lemma generateUnifiedPatch_applyPatch:
  assumes "0x0A \<notin> set leftFileName" "0x0A \<notin> set rightFileName"
  shows "applyPatch (generateUnifiedPatch toLowerCase leftCode rightCode leftFileName rightFileName)
           leftCode =
         (if emptyLeftRange (computeLineDiff toLowerCase (splitLines leftCode) (splitLines rightCode)
                               defaultOptions)
          then None else Some rightCode)"
proof -
  define L where "L = splitLines leftCode"
  define R where "R = splitLines rightCode"
  define d where "d = computeLineDiff toLowerCase L R defaultOptions"
  have wf: "list_all wellFormed d"
    unfolding d_def by (rule wellFormed_computeLineDiff)
  have ls: "leftSide d = map (\<lambda>i. (Str (L ! i), Num (Suc i))) [0..<length L]"
    and rs: "rightSide d = map (\<lambda>i. (Str (R ! i), Num (Suc i))) [0..<length R]"
    unfolding d_def by (simp_all add: computeLineDiff_sides)
  have nl: "list_all (\<lambda>l. 0x0A \<notin> set l) L" "list_all (\<lambda>l. 0x0A \<notin> set l) R"
    by (auto simp: list_all_iff L_def R_def dest: splitLines_no_newline)
  define h1 where "h1 = js ''--- '' @ leftFileName"
  define h2 where "h2 = js ''+++ '' @ rightFileName"
  have h: "0x0A \<notin> set h1" "0x0A \<notin> set h2" "take 4 h1 = js ''--- ''" "take 4 h2 = js ''+++ ''"
    using assms by (simp_all add: h1_def h2_def js_def)
  have "\<forall>l \<in> set (h1 # h2 # singleHunk d). 0x0A \<notin> set l"
    using singleHunk_no_newline [OF wf ls rs nl] h(1,2) by (simp add: list_all_iff)
  then have sp: "splitLines (joinLines (h1 # h2 # singleHunk d)) = h1 # h2 # singleHunk d"
    by (intro splitLines_joinLines) simp_all
  have p: "generateUnifiedPatch toLowerCase leftCode rightCode leftFileName rightFileName =
             joinLines (h1 # h2 # singleHunk d)"
    by (simp add: generateUnifiedPatch_def Let_def patchLines_singleHunk d_def L_def R_def h1_def h2_def)
  have "applyPatch (joinLines (h1 # h2 # singleHunk d)) leftCode =
          map_option joinLines (applyHunks (singleHunk d) 0 0 L 1)"
    unfolding applyPatch_def sp using h(3,4) by (simp add: L_def)
  also have "\<dots> = (if emptyLeftRange d then None else Some (joinLines R))"
    using applyHunks_singleHunk [OF wf ls rs] by simp
  also have "joinLines R = rightCode"
    by (simp add: R_def joinLines_splitLines)
  finally show ?thesis by (simp add: p d_def L_def R_def)
qed

text \<open>
  C7 fails on the code where the right text is the left text with lines added after its
  last line. For the left text \<open>a\<close> and the right text \<open>a\<close>, \<open>b\<close> the hunk has no left
  line, and \<open>generateUnifiedPatch\<close> writes the range line \<open>@@ -2,0 +2,1 @@\<close>: the
  number of the line after the insertion, where the unified format names the line before an
  empty range, \<open>@@ -1,0 +2 @@\<close>. The left text has no line 2 to insert after, and the patch
  does not apply; the patch with the range line of the format does, and gives the right
  text.
\<close>

theorem generateUnifiedPatch_appended_line:
  "generateUnifiedPatch (\<lambda>s. s) (js ''a'') (js ''a\<newline>b'') defaultLeftFileName defaultRightFileName =
     js ''--- original\<newline>+++ modified\<newline>@@ -2,0 +2,1 @@\<newline>+b'' \<and>
   applyPatch (generateUnifiedPatch (\<lambda>s. s) (js ''a'') (js ''a\<newline>b'')
                 defaultLeftFileName defaultRightFileName) (js ''a'') = None \<and>
   applyPatch (js ''--- original\<newline>+++ modified\<newline>@@ -1,0 +2 @@\<newline>+b'') (js ''a'') =
     Some (js ''a\<newline>b'')"
  by code_simp

end
